theory Spec2Isabelle
  imports Complex_Main "HOL-Library.Sublist"
begin

text \<open>
  A model of \<open>fixit_all_agent.py\<close>: the measurement and scale parser, the material
  parser, the compliance checker, the quantity estimator, the duplicate detector, the
  completeness checker and the pipeline \<open>FixItAllAgent.process\<close>. The definitions come
  first, the properties after them.
\<close>

section \<open>Python floats (IEEE 754 binary64)\<close>

text \<open>
  Measurement values are Python floats. A float is modelled by the rational number it
  denotes, with the two zeros, the two infinities and NaN as values of their own.
  \<open>Finite 0\<close> is \<open>+0.0\<close> and \<open>NegZero\<close> is \<open>-0.0\<close>. Arithmetic computes the exact
  rational result and rounds it to the nearest double (ties to even), as the hardware
  and CPython's correctly rounded \<open>strtod\<close> do.
\<close>

datatype pyfloat = Finite rat | NegZero | PosInf | NegInf | NaN

text \<open>Number of binary digits of a positive integer (\<open>int.bit_length()\<close>).\<close>

function bit_length :: "int \<Rightarrow> nat" where
  "bit_length n = (if n \<le> 0 then 0 else Suc (bit_length (n div 2)))"
  by pat_completeness auto
termination
  by (relation "measure nat") auto

declare bit_length.simps [simp del]

text \<open>\<open>floor_log2 q\<close> is the integer \<open>k\<close> with \<open>2^k \<le> q < 2^(k+1)\<close>, for \<open>q > 0\<close>.\<close>

definition floor_log2 :: "rat \<Rightarrow> int" where
  "floor_log2 q =
     (let (p, d) = quotient_of q;
          k = int (bit_length p) - int (bit_length d)
      in if 2 powi k \<le> q then k else k - 1)"

text \<open>Rounding a rational to the nearest integer, ties to the even one.\<close>

definition round_half_even :: "rat \<Rightarrow> int" where
  "round_half_even q =
     (let f = \<lfloor>q\<rfloor>; r = q - of_int f
      in if r < 1 / 2 then f
         else if 1 / 2 < r then f + 1
         else if even f then f else f + 1)"

text \<open>
  Rounding a rational to binary64: 53 significant bits, least exponent \<open>-1074\<close>
  (subnormals), overflow to infinity from \<open>2^1024\<close> on, and a result that rounds to
  zero keeps the sign.
\<close>

definition round_double :: "rat \<Rightarrow> pyfloat" where
  "round_double q =
     (if q = 0 then Finite 0
      else
        let a = \<bar>q\<bar>;
            e = max (floor_log2 a - 52) (- 1074);
            n = round_half_even (a / (2 powi e));
            r = of_int n * (2 powi e)
        in if (2::rat) ^ 1024 \<le> r then (if q < 0 then NegInf else PosInf)
           else if n = 0 then (if q < 0 then NegZero else Finite 0)
           else Finite (if q < 0 then - r else r))"

text \<open>The comparison \<open>x < y\<close> of two floats: false when either is NaN, the zeros equal.\<close>

fun float_lt :: "pyfloat \<Rightarrow> pyfloat \<Rightarrow> bool" where
  "float_lt NaN _ = False"
| "float_lt _ NaN = False"
| "float_lt PosInf _ = False"
| "float_lt _ PosInf = True"
| "float_lt _ NegInf = False"
| "float_lt NegInf _ = True"
| "float_lt NegZero NegZero = False"
| "float_lt NegZero (Finite b) = (0 < b)"
| "float_lt (Finite a) NegZero = (a < 0)"
| "float_lt (Finite a) (Finite b) = (a < b)"

text \<open>
  \<open>value / 1000\<close> and \<open>value / 100\<close>: a float divided by a positive int constant,
  which Python converts to the float of the same value. The divisor is never zero, so
  the \<open>ZeroDivisionError\<close> branch of float division is not reachable here.
\<close>

fun float_div_const :: "pyfloat \<Rightarrow> nat \<Rightarrow> pyfloat" where
  "float_div_const (Finite q) c = (if q = 0 then Finite 0 else round_double (q / of_nat c))"
| "float_div_const NegZero c = NegZero"
| "float_div_const PosInf c = PosInf"
| "float_div_const NegInf c = NegInf"
| "float_div_const NaN c = NaN"

text \<open>Float multiplication \<open>x * y\<close>.\<close>

fun float_is_zero :: "pyfloat \<Rightarrow> bool" where
  "float_is_zero (Finite q) = (q = 0)"
| "float_is_zero NegZero = True"
| "float_is_zero _ = False"

fun float_is_inf :: "pyfloat \<Rightarrow> bool" where
  "float_is_inf PosInf = True"
| "float_is_inf NegInf = True"
| "float_is_inf _ = False"

fun float_sign :: "pyfloat \<Rightarrow> bool" where
  "float_sign (Finite q) = (q < 0)"
| "float_sign NegZero = True"
| "float_sign NegInf = True"
| "float_sign _ = False"

fun float_val :: "pyfloat \<Rightarrow> rat" where
  "float_val (Finite q) = q"
| "float_val _ = 0"

definition float_mul :: "pyfloat \<Rightarrow> pyfloat \<Rightarrow> pyfloat" where
  "float_mul x y =
     (if x = NaN \<or> y = NaN then NaN
      else if float_is_inf x \<or> float_is_inf y then
        (if float_is_zero x \<or> float_is_zero y then NaN
         else if float_sign x \<noteq> float_sign y then NegInf else PosInf)
      else if float_is_zero x \<or> float_is_zero y then
        (if float_sign x \<noteq> float_sign y then NegZero else Finite 0)
      else round_double (float_val x * float_val y))"

text \<open>
  \<open>round(x, 2)\<close> on a float: NaN and the infinities round to themselves; a finite
  value is rounded to the nearest multiple of \<open>1/100\<close> (ties to even, on the exact
  binary value) and that decimal is converted back to the nearest double, the sign
  kept when the result is zero.
\<close>

fun py_round2 :: "pyfloat \<Rightarrow> pyfloat" where
  "py_round2 (Finite q) =
     (let r = of_int (round_half_even (q * 100)) / (100::rat)
      in if r = 0 then (if q < 0 then NegZero else Finite 0) else round_double r)"
| "py_round2 x = x"

text \<open>A float literal of the source, such as \<open>2.3\<close>, denotes the nearest double.\<close>

definition float_literal :: "rat \<Rightarrow> pyfloat" where
  "float_literal q = round_double q"

text \<open>A measurement is a pair \<open>(value, unit)\<close> of a float and a unit string.\<close>

type_synonym measurement = "pyfloat \<times> string"

section \<open>Exceptions\<close>

text \<open>
  The exceptions the module can raise: \<open>ValueError\<close> (with its message), \<open>IndexError\<close>,
  and whatever a library call raises (\<open>LibraryError\<close>, with a description).
\<close>

datatype exn = ValueError string | IndexError | LibraryError string

section \<open>Text\<close>

text \<open>
  A text is a string of characters with code points below 256 (Latin-1). On these,
  \<open>str.lower()\<close> works character by character: \<open>A\<close>..\<open>Z\<close> and the accented capitals
  \<open>0xC0\<close>..\<open>0xDE\<close> (without the multiplication sign \<open>0xD7\<close>) move up by 32.
\<close>

definition py_lower_char :: "char \<Rightarrow> char" where
  "py_lower_char c =
     (let n = (of_char c :: nat)
      in if (65 \<le> n \<and> n \<le> 90) \<or> (192 \<le> n \<and> n \<le> 222 \<and> n \<noteq> 215)
         then char_of (n + 32) else c)"

definition py_lower :: "string \<Rightarrow> string" where
  "py_lower s = map py_lower_char s"

text \<open>The character classes of \<open>re\<close> on \<open>str\<close> patterns: \<open>\d\<close>, \<open>\s\<close> and \<open>\w\<close>.\<close>

definition is_digit :: "char \<Rightarrow> bool" where
  "is_digit c = (let n = (of_char c :: nat) in 48 \<le> n \<and> n \<le> 57)"

definition is_space :: "char \<Rightarrow> bool" where
  "is_space c =
     (let n = (of_char c :: nat)
      in (9 \<le> n \<and> n \<le> 13) \<or> (28 \<le> n \<and> n \<le> 32) \<or> n = 133 \<or> n = 160)"

definition is_word :: "char \<Rightarrow> bool" where
  "is_word c =
     (let n = (of_char c :: nat)
      in (48 \<le> n \<and> n \<le> 57) \<or> (65 \<le> n \<and> n \<le> 90) \<or> n = 95 \<or> (97 \<le> n \<and> n \<le> 122)
         \<or> n = 170 \<or> n = 178 \<or> n = 179 \<or> n = 181 \<or> n = 185 \<or> n = 186
         \<or> (188 \<le> n \<and> n \<le> 190) \<or> (192 \<le> n \<and> n \<le> 214) \<or> (216 \<le> n \<and> n \<le> 246)
         \<or> 248 \<le> n)"

text \<open>\<open>sub in s\<close>: the substring test.\<close>

fun py_in :: "string \<Rightarrow> string \<Rightarrow> bool" where
  "py_in sub [] = (sub = [])"
| "py_in sub (c # cs) = (prefix sub (c # cs) \<or> py_in sub cs)"

text \<open>\<open>s.split(sep)\<close> for a separator of one character; the result is never empty.\<close>

fun py_split :: "char \<Rightarrow> string \<Rightarrow> string list" where
  "py_split sep [] = [[]]"
| "py_split sep (c # cs) =
     (if c = sep then [] # py_split sep cs
      else (case py_split sep cs of [] \<Rightarrow> [[c]] | w # ws \<Rightarrow> (c # w) # ws))"

text \<open>\<open>xs[-1]\<close>, which raises \<open>IndexError\<close> on an empty list.\<close>

definition py_last :: "'a list \<Rightarrow> exn + 'a" where
  "py_last xs = (case rev xs of [] \<Rightarrow> Inl IndexError | x # _ \<Rightarrow> Inr x)"

section \<open>Regular expressions\<close>

text \<open>
  The patterns of the module use character classes, literals, sequence, alternation,
  the greedy operators \<open>?\<close>, \<open>*\<close>, \<open>+\<close> and capturing groups. A pattern is run by
  backtracking: \<open>rx_run r (s, g)\<close> lists every way \<open>r\<close> can match a prefix of \<open>s\<close>, as
  the rest of the input and the groups captured, in the order in which the backtracking
  matcher of \<open>re\<close> tries them (the left alternative first, the longer repetition first).
\<close>

datatype rx =
    Chars "char \<Rightarrow> bool"
  | Empty
  | Seq rx rx
  | Alt rx rx
  | Opt rx
  | Star rx
  | Group nat rx

type_synonym groups = "nat \<Rightarrow> string option"

function rx_run :: "rx \<Rightarrow> string \<times> groups \<Rightarrow> (string \<times> groups) list" where
  "rx_run (Chars p) (s, g) = (case s of [] \<Rightarrow> [] | c # cs \<Rightarrow> if p c then [(cs, g)] else [])"
| "rx_run Empty (s, g) = [(s, g)]"
| "rx_run (Seq a b) (s, g) = concat (map (rx_run b) (rx_run a (s, g)))"
| "rx_run (Alt a b) (s, g) = rx_run a (s, g) @ rx_run b (s, g)"
| "rx_run (Opt a) (s, g) = rx_run a (s, g) @ [(s, g)]"
| "rx_run (Star a) (s, g) =
     concat (map (\<lambda>m. if length (fst m) < length s then rx_run (Star a) m else [])
                 (rx_run a (s, g)))
     @ [(s, g)]"
| "rx_run (Group n a) (s, g) =
     map (\<lambda>m. (fst m, (snd m)(n \<mapsto> take (length s - length (fst m)) s))) (rx_run a (s, g))"
  by pat_completeness auto
termination
  by (relation "inv_image (less_than <*lex*> less_than) (\<lambda>(r, s, g). (size r, length s))") auto

definition Plus :: "rx \<Rightarrow> rx" where
  "Plus r = Seq r (Star r)"

definition Lit :: "char \<Rightarrow> rx" where
  "Lit c = Chars (\<lambda>x. x = c)"

text \<open>A literal character under \<open>re.IGNORECASE\<close>.\<close>

definition ILit :: "char \<Rightarrow> rx" where
  "ILit c = Chars (\<lambda>x. py_lower_char x = py_lower_char c)"

fun Str :: "string \<Rightarrow> rx" where
  "Str [] = Empty"
| "Str (c # cs) = Seq (Lit c) (Str cs)"

fun IStr :: "string \<Rightarrow> rx" where
  "IStr [] = Empty"
| "IStr (c # cs) = Seq (ILit c) (IStr cs)"

text \<open>The first way a pattern matches at the start of \<open>s\<close>, if there is one.\<close>

definition rx_match_at :: "rx \<Rightarrow> string \<Rightarrow> (string \<times> groups) option" where
  "rx_match_at r s = (case rx_run r (s, Map.empty) of [] \<Rightarrow> None | m # _ \<Rightarrow> Some m)"

text \<open>\<open>re.search\<close>: the match at the leftmost position that has one.\<close>

fun rx_search :: "rx \<Rightarrow> string \<Rightarrow> groups option" where
  "rx_search r [] = map_option snd (rx_match_at r [])"
| "rx_search r (c # cs) =
     (case rx_match_at r (c # cs) of Some m \<Rightarrow> Some (snd m) | None \<Rightarrow> rx_search r cs)"

text \<open>
  \<open>re.findall\<close>: the matches from left to right, each search starting where the last
  match ended. After a match of the empty string the scan moves on by one character;
  the patterns of this module match at least one character, so that branch is not
  taken by them.
\<close>

function rx_findall :: "rx \<Rightarrow> string \<Rightarrow> groups list" where
  "rx_findall r s =
     (case rx_match_at r s of
        None \<Rightarrow> (case s of [] \<Rightarrow> [] | c # cs \<Rightarrow> rx_findall r cs)
      | Some m \<Rightarrow>
          snd m # (if length (fst m) < length s then rx_findall r (fst m)
                   else (case s of [] \<Rightarrow> [] | c # cs \<Rightarrow> rx_findall r cs)))"
  by pat_completeness auto
termination
  by (relation "measure (\<lambda>(r, s). length s)") auto

declare rx_findall.simps [simp del]

text \<open>The string of a group; a group that took no part in the match gives \<open>''\<close>.\<close>

definition group :: "groups \<Rightarrow> nat \<Rightarrow> string" where
  "group g n = (case g n of None \<Rightarrow> [] | Some s \<Rightarrow> s)"

section \<open>Drawing analyzer\<close>

text \<open>The pattern \<open>(\d+(?:\.\d+)?)\s*(mm|cm|m)\<close>.\<close>

definition measurement_rx :: rx where
  "measurement_rx =
     Seq (Group 1 (Seq (Plus (Chars is_digit)) (Opt (Seq (Lit CHR ''.'') (Plus (Chars is_digit))))))
         (Seq (Star (Chars is_space))
              (Group 2 (Alt (Str ''mm'') (Alt (Str ''cm'') (Str ''m'')))))"

text \<open>The pattern \<open>Scale\s*[:\-]?\s*1[:]\s*(\d+)\<close> under \<open>re.IGNORECASE\<close>.\<close>

definition scale_rx :: rx where
  "scale_rx =
     Seq (IStr ''Scale'')
    (Seq (Star (Chars is_space))
    (Seq (Opt (Chars (\<lambda>x. x = CHR '':'' \<or> x = CHR ''-'')))
    (Seq (Star (Chars is_space))
    (Seq (ILit CHR ''1'')
    (Seq (Chars (\<lambda>x. x = CHR '':''))
    (Seq (Star (Chars is_space))
         (Group 1 (Plus (Chars is_digit)))))))))"

text \<open>
  \<open>float(val)\<close> on the strings the first group of the measurement pattern can hold:
  decimal digits with an optional fraction. The value is the exact decimal, rounded to
  the nearest double. \<open>float\<close> accepts further forms (signs, exponents, \<open>inf\<close>, \<open>nan\<close>,
  blanks around the number) that are outside this fragment and never reach the call;
  outside the fragment the model gives \<open>ValueError\<close>.
\<close>

definition digit_val :: "char \<Rightarrow> nat" where
  "digit_val c = of_char c - 48"

definition digits_val :: "string \<Rightarrow> nat" where
  "digits_val s = foldl (\<lambda>a c. 10 * a + digit_val c) 0 s"

definition is_digits :: "string \<Rightarrow> bool" where
  "is_digits s = (s \<noteq> [] \<and> list_all is_digit s)"

definition py_float :: "string \<Rightarrow> exn + pyfloat" where
  "py_float s =
     (let ip = takeWhile (\<lambda>c. c \<noteq> CHR ''.'') s;
          rest = dropWhile (\<lambda>c. c \<noteq> CHR ''.'') s
      in if is_digits ip \<and> rest = [] then Inr (round_double (of_nat (digits_val ip)))
         else if is_digits ip \<and> rest \<noteq> [] \<and> is_digits (tl rest)
         then Inr (round_double (of_nat (digits_val (ip @ tl rest)) / 10 ^ length (tl rest)))
         else Inl (ValueError ''could not convert string to float''))"

text \<open>The list comprehension \<open>[(float(val), unit) for val, unit in dims]\<close>.\<close>

fun convert_dims :: "(string \<times> string) list \<Rightarrow> exn + measurement list" where
  "convert_dims [] = Inr []"
| "convert_dims ((val, unit) # dims) =
     (case py_float val of
        Inl e \<Rightarrow> Inl e
      | Inr v \<Rightarrow> (case convert_dims dims of Inl e \<Rightarrow> Inl e | Inr ms \<Rightarrow> Inr ((v, unit) # ms)))"

definition extract_measurements :: "string \<Rightarrow> exn + measurement list" where
  "extract_measurements text =
     (let dims = map (\<lambda>g. (group g 1, group g 2)) (rx_findall measurement_rx (py_lower text))
      in convert_dims dims)"

text \<open>
  \<open>int(match.group(1))\<close> on a string of decimal digits. Since Python 3.11 (and the
  security releases of earlier versions) the conversion raises \<open>ValueError\<close> when the
  string has more digits than \<open>sys.get_int_max_str_digits()\<close>, a limit that is 0 (none)
  or at least 640; the limit is the parameter \<open>maxd\<close>.
\<close>

definition py_int :: "nat \<Rightarrow> string \<Rightarrow> exn + int" where
  "py_int maxd s =
     (if 0 < maxd \<and> maxd < length s \<and> 640 < length s
      then Inl (ValueError ''Exceeds the limit for integer string conversion'')
      else Inr (int (digits_val s)))"

definition extract_scale :: "nat \<Rightarrow> string \<Rightarrow> exn + int option" where
  "extract_scale maxd text =
     (case rx_search scale_rx text of
        None \<Rightarrow> Inr None
      | Some g \<Rightarrow> (case py_int maxd (group g 1) of Inl e \<Rightarrow> Inl e | Inr n \<Rightarrow> Inr (Some n)))"

section \<open>Compliance checker\<close>

definition MIN_CEILING_HEIGHT :: pyfloat where
  "MIN_CEILING_HEIGHT = float_literal (23 / 10)"

definition MIN_CORRIDOR_WIDTH :: pyfloat where
  "MIN_CORRIDOR_WIDTH = float_literal (9 / 10)"

definition MIN_DOOR_WIDTH :: pyfloat where
  "MIN_DOOR_WIDTH = float_literal (762 / 1000)"

text \<open>
  One iteration of the loop of \<open>check_compliance\<close>: the unit conversion, then the three
  tests, each appending to \<open>issues\<close>. The issue strings are f-strings that format the
  float; the formatting function (\<open>repr\<close> of a float) is the parameter \<open>fmt\<close>.
\<close>

definition check_step :: "(pyfloat \<Rightarrow> string) \<Rightarrow> string list \<Rightarrow> measurement \<Rightarrow> string list" where
  "check_step fmt issues m =
     (case m of (value0, unit) \<Rightarrow>
      let val = (if unit = ''mm'' then float_div_const value0 1000
                 else if unit = ''cm'' then float_div_const value0 100
                 else value0);
          issues1 = (if float_lt val MIN_CEILING_HEIGHT
                     then issues @ [''Ceiling height too low: '' @ fmt val @ '' m''] else issues);
          issues2 = (if float_lt val MIN_CORRIDOR_WIDTH
                     then issues1 @ [''Corridor width too small: '' @ fmt val @ '' m''] else issues1);
          issues3 = (if float_lt val MIN_DOOR_WIDTH
                     then issues2 @ [''Door width too small: '' @ fmt val @ '' m''] else issues2)
      in issues3)"

definition check_compliance :: "(pyfloat \<Rightarrow> string) \<Rightarrow> measurement list \<Rightarrow> string list" where
  "check_compliance fmt measurements = foldl (check_step fmt) [] measurements"

section \<open>Material pack analyzer\<close>

record material_entry =
  material :: string
  mat_type :: string
  thickness :: string

text \<open>
  The pattern \<open>(Timber|Flooring|Tile|Concrete|Steel)\s*(\w+)?\s*(\d+mm|\d+cm)?\<close> under
  \<open>re.IGNORECASE\<close>.
\<close>

definition material_rx :: rx where
  "material_rx =
     Seq (Group 1 (Alt (IStr ''Timber'') (Alt (IStr ''Flooring'') (Alt (IStr ''Tile'')
            (Alt (IStr ''Concrete'') (IStr ''Steel''))))))
    (Seq (Star (Chars is_space))
    (Seq (Opt (Group 2 (Plus (Chars is_word))))
    (Seq (Star (Chars is_space))
         (Opt (Group 3 (Alt (Seq (Plus (Chars is_digit)) (IStr ''mm''))
                            (Seq (Plus (Chars is_digit)) (IStr ''cm''))))))))"

definition extract_materials :: "string \<Rightarrow> material_entry list" where
  "extract_materials text =
     map (\<lambda>g. \<lparr>material = group g 1, mat_type = group g 2, thickness = group g 3\<rparr>)
         (rx_findall material_rx text)"

section \<open>BOQ generator\<close>

record boq_line =
  boq_material :: string
  quantity_m2 :: pyfloat

text \<open>
  One iteration of the loop of \<open>generate_boq\<close>. The data frame built from the list of
  rows and its conversion back to records keep the rows as they are, so the result is
  the list of rows.
\<close>

definition boq_step :: "boq_line list \<Rightarrow> measurement \<Rightarrow> boq_line list" where
  "boq_step boq m =
     (case m of (val0, unit) \<Rightarrow>
      let val = (if unit = ''mm'' then float_div_const val0 1000
                 else if unit = ''cm'' then float_div_const val0 100
                 else val0)
      in boq @ [\<lparr>boq_material = ''Generic Material'',
                 quantity_m2 = py_round2 (float_mul val val)\<rparr>])"

definition generate_boq :: "measurement list \<Rightarrow> material_entry list \<Rightarrow> boq_line list" where
  "generate_boq measurements materials = foldl boq_step [] measurements"

section \<open>Duplicate material detector\<close>

text \<open>
  \<open>fuzz.ratio\<close> of the library \<open>fuzzywuzzy\<close> is the parameter \<open>ratio\<close>. The dictionary
  \<open>seen\<close> is the list of its keys in insertion order: storing a key that is present
  leaves the order as it is. The state of the loop is the pair \<open>(duplicates, seen)\<close>.
\<close>

definition dup_step ::
  "(string \<Rightarrow> string \<Rightarrow> int) \<Rightarrow> (string \<times> string) list \<times> string list \<Rightarrow> material_entry
     \<Rightarrow> (string \<times> string) list \<times> string list" where
  "dup_step ratio st mat =
     (case st of (duplicates, seen) \<Rightarrow>
      let name = material mat;
          duplicates1 = foldl (\<lambda>d seen_name.
                                 if 90 < ratio name seen_name then d @ [(name, seen_name)] else d)
                              duplicates seen;
          seen1 = (if name \<in> set seen then seen else seen @ [name])
      in (duplicates1, seen1))"

definition detect_duplicates ::
  "(string \<Rightarrow> string \<Rightarrow> int) \<Rightarrow> material_entry list \<Rightarrow> (string \<times> string) list" where
  "detect_duplicates ratio material_list = fst (foldl (dup_step ratio) ([], []) material_list)"

section \<open>Missing information detector\<close>

definition detect_missing_info :: "string \<Rightarrow> string list" where
  "detect_missing_info text =
     (let missing_info = [];
          missing_info1 = (if \<not> py_in ''flooring'' (py_lower text)
                           then missing_info @ [''Missing Flooring Information'']
                           else missing_info);
          missing_info2 = (if \<not> py_in ''insulation'' (py_lower text)
                           then missing_info1 @ [''Missing Insulation Information'']
                           else missing_info1);
          missing_info3 = (if \<not> py_in ''wall finish'' (py_lower text)
                           then missing_info2 @ [''Missing Wall Finish Information'']
                           else missing_info2)
      in missing_info3)"

section \<open>File reader\<close>

text \<open>
  The libraries the reader calls and the interpreter settings are the environment.
  \<open>pdf_pages\<close> stands for opening the file with \<open>pdfplumber\<close> and calling
  \<open>extract_text\<close> on every page (\<open>None\<close> for a page without text), \<open>ocr_image\<close> for
  \<open>cv2.imread\<close> followed by \<open>pytesseract.image_to_string\<close>, and \<open>dxf_entities\<close> for
  reading the file with \<open>ezdxf\<close> and listing the entities of the model space as pairs
  of their type and plain text. Each gets the upload path and the file name, and each
  can fail with an exception.
\<close>

record env =
  pdf_pages :: "string \<Rightarrow> string \<Rightarrow> exn + string option list"
  ocr_image :: "string \<Rightarrow> string \<Rightarrow> exn + string"
  dxf_entities :: "string \<Rightarrow> string \<Rightarrow> exn + (string \<times> string) list"
  float_repr :: "pyfloat \<Rightarrow> string"
  fuzz_ratio :: "string \<Rightarrow> string \<Rightarrow> int"
  int_max_str_digits :: nat

definition read_pdf :: "env \<Rightarrow> string \<Rightarrow> string \<Rightarrow> exn + string" where
  "read_pdf E upload_path filename =
     (case pdf_pages E upload_path filename of
        Inl e \<Rightarrow> Inl e
      | Inr pages \<Rightarrow>
          Inr (foldl (\<lambda>text page. text @ (case page of None \<Rightarrow> [] | Some t \<Rightarrow> t)) [] pages))"

definition read_image :: "env \<Rightarrow> string \<Rightarrow> string \<Rightarrow> exn + string" where
  "read_image E upload_path filename = ocr_image E upload_path filename"

text \<open>\<open>" ".join(entities)\<close>.\<close>

fun join_space :: "string list \<Rightarrow> string" where
  "join_space [] = []"
| "join_space [x] = x"
| "join_space (x # y # ys) = x @ '' '' @ join_space (y # ys)"

definition read_dwg :: "env \<Rightarrow> string \<Rightarrow> string \<Rightarrow> exn + string" where
  "read_dwg E upload_path filename =
     (case dxf_entities E upload_path filename of
        Inl e \<Rightarrow> Inl e
      | Inr msp \<Rightarrow>
          Inr (join_space (map snd (filter (\<lambda>e. fst e \<in> set [''TEXT'', ''MTEXT'']) msp))))"

section \<open>The agent\<close>

record report =
  scale :: "int option"
  measurements :: "measurement list"
  compliance_issues :: "string list"
  materials :: "material_entry list"
  boq :: "boq_line list"
  duplicate_materials :: "(string \<times> string) list"
  missing_info :: "string list"

text \<open>
  What a run does besides returning: the line it prints and the extractor it calls.
\<close>

datatype event = Printed string | CalledReadPdf string | CalledReadImage string
  | CalledReadDwg string

text \<open>The part of \<open>process\<close> after the text has been read.\<close>

definition analyse :: "env \<Rightarrow> string \<Rightarrow> exn + report" where
  "analyse E text =
     (case extract_measurements text of
        Inl e \<Rightarrow> Inl e
      | Inr ms \<Rightarrow>
     (case extract_scale (int_max_str_digits E) text of
        Inl e \<Rightarrow> Inl e
      | Inr sc \<Rightarrow>
          let material_list = extract_materials text;
              issues = check_compliance (float_repr E) ms;
              boq_df = generate_boq ms material_list;
              duplicates = detect_duplicates (fuzz_ratio E) material_list;
              missing = detect_missing_info text
          in Inr \<lparr>scale = sc, measurements = ms, compliance_issues = issues,
                   materials = material_list, boq = boq_df,
                   duplicate_materials = duplicates, missing_info = missing\<rparr>))"

text \<open>
  \<open>process\<close>: the result is the list of events of the run and either the exception
  raised or the report.
\<close>

definition process :: "env \<Rightarrow> string \<Rightarrow> string \<Rightarrow> event list \<times> (exn + report)" where
  "process E upload_path filename =
     (let out = [Printed (''Processing file: '' @ filename)]
      in case py_last (py_split CHR ''.'' filename) of
           Inl e \<Rightarrow> (out, Inl e)
         | Inr ext \<Rightarrow>
             if py_lower ext = ''pdf'' then
               (case read_pdf E upload_path filename of
                  Inl e \<Rightarrow> (out @ [CalledReadPdf filename], Inl e)
                | Inr text \<Rightarrow> (out @ [CalledReadPdf filename], analyse E text))
             else if py_lower ext \<in> set [''png'', ''jpg'', ''jpeg''] then
               (case read_image E upload_path filename of
                  Inl e \<Rightarrow> (out @ [CalledReadImage filename], Inl e)
                | Inr text \<Rightarrow> (out @ [CalledReadImage filename], analyse E text))
             else if py_lower ext = ''dwg'' then
               (case read_dwg E upload_path filename of
                  Inl e \<Rightarrow> (out @ [CalledReadDwg filename], Inl e)
                | Inr text \<Rightarrow> (out @ [CalledReadDwg filename], analyse E text))
             else (out, Inl (ValueError ''Unsupported file type'')))"

section \<open>The contracts, stated apart from the code\<close>

text \<open>
  The definitions of this section follow the wording of the specification; the
  properties below compare them with the definitions above.
\<close>

text \<open>
  Normalising a measurement to meters: divide by 1000 for millimeters, by 100 for
  centimeters, unchanged otherwise.
\<close>

definition to_meters :: "measurement \<Rightarrow> pyfloat" where
  "to_meters m =
     (if snd m = ''mm'' then float_div_const (fst m) 1000
      else if snd m = ''cm'' then float_div_const (fst m) 100
      else fst m)"

text \<open>The three thresholds, their minimum and the issue string of each.\<close>

datatype threshold = Ceiling | Corridor | Door

fun minimum :: "threshold \<Rightarrow> pyfloat" where
  "minimum Ceiling = float_literal (23 / 10)"
| "minimum Corridor = float_literal (9 / 10)"
| "minimum Door = float_literal (762 / 1000)"

fun issue_string :: "(pyfloat \<Rightarrow> string) \<Rightarrow> threshold \<Rightarrow> pyfloat \<Rightarrow> string" where
  "issue_string fmt Ceiling v = ''Ceiling height too low: '' @ fmt v @ '' m''"
| "issue_string fmt Corridor v = ''Corridor width too small: '' @ fmt v @ '' m''"
| "issue_string fmt Door v = ''Door width too small: '' @ fmt v @ '' m''"

text \<open>The thresholds a normalised value falls strictly below, and the issues of one measurement.\<close>

definition thresholds_below :: "pyfloat \<Rightarrow> threshold list" where
  "thresholds_below v = filter (\<lambda>k. float_lt v (minimum k)) [Ceiling, Corridor, Door]"

definition issues_of :: "(pyfloat \<Rightarrow> string) \<Rightarrow> measurement \<Rightarrow> string list" where
  "issues_of fmt m = map (\<lambda>k. issue_string fmt k (to_meters m)) (thresholds_below (to_meters m))"

text \<open>\<open>x <= y\<close> on floats: false when either is NaN.\<close>

definition float_le :: "pyfloat \<Rightarrow> pyfloat \<Rightarrow> bool" where
  "float_le x y = (x \<noteq> NaN \<and> y \<noteq> NaN \<and> \<not> float_lt y x)"

text \<open>The BOQ line of one measurement.\<close>

definition boq_line_of :: "measurement \<Rightarrow> boq_line" where
  "boq_line_of m =
     \<lparr>boq_material = ''Generic Material'',
      quantity_m2 = py_round2 (float_mul (to_meters m) (to_meters m))\<rparr>"

text \<open>
  Running a pattern and handing every result to a continuation \<open>k\<close>, in order. This
  is the form in which the patterns are analysed below.
\<close>

definition rx_then ::
  "rx \<Rightarrow> (string \<times> groups \<Rightarrow> (string \<times> groups) list) \<Rightarrow> string \<times> groups
     \<Rightarrow> (string \<times> groups) list" where
  "rx_then r k m = concat (map k (rx_run r m))"

text \<open>
  The measurement pattern read as a scanner. A measurement starts with a digit; its
  number is the longest run of digits, with a fraction (a point and the longest run of
  digits after it) when the point is followed by a digit; any blanks follow; then the
  unit, the first of \<open>mm\<close>, \<open>cm\<close>, \<open>m\<close> that the text continues with.
  \<open>measure_at s\<close> is the number, the unit and the text after the unit.
\<close>

definition unit_at :: "string \<Rightarrow> string option" where
  "unit_at s =
     (if prefix ''mm'' s then Some ''mm''
      else if prefix ''cm'' s then Some ''cm''
      else if prefix ''m'' s then Some ''m''
      else None)"

text \<open>
  The ways the unit group \<open>(mm|cm|m)\<close> matches at the start of \<open>u\<close>, in the order of
  the alternatives, each with the text after the unit and the group recorded.
\<close>

definition unit_results :: "string \<Rightarrow> groups \<Rightarrow> (string \<times> groups) list" where
  "unit_results u g =
     (if prefix ''mm'' u then [(drop 2 u, g(2 \<mapsto> ''mm''))] else [])
     @ (if prefix ''cm'' u then [(drop 2 u, g(2 \<mapsto> ''cm''))] else [])
     @ (if prefix ''m'' u then [(drop 1 u, g(2 \<mapsto> ''m''))] else [])"

definition after_number :: "string \<Rightarrow> string" where
  "after_number s =
     (let r = dropWhile is_digit s
      in case r of
           c # d # t \<Rightarrow> if c = CHR ''.'' \<and> is_digit d then dropWhile is_digit (d # t) else r
         | _ \<Rightarrow> r)"

definition measure_at :: "string \<Rightarrow> (string \<times> string \<times> string) option" where
  "measure_at s =
     (case s of
        [] \<Rightarrow> None
      | c # cs \<Rightarrow>
          if is_digit c then
            (let r = after_number s; u = dropWhile is_space r
             in case unit_at u of
                  None \<Rightarrow> None
                | Some un \<Rightarrow> Some (take (length s - length r) s, un, drop (length un) u))
          else None)"

text \<open>
  All measurements of a text, from left to right, each search starting where the last
  measurement ended. A measurement is never empty, so the test on the lengths always
  succeeds; it is there for the recursion to be well founded.
\<close>

function scan_measures :: "string \<Rightarrow> (string \<times> string) list" where
  "scan_measures s =
     (case measure_at s of
        None \<Rightarrow> (case s of [] \<Rightarrow> [] | c # cs \<Rightarrow> scan_measures cs)
      | Some m \<Rightarrow>
          (fst m, fst (snd m)) #
            (if length (snd (snd m)) < length s then scan_measures (snd (snd m)) else []))"
  by pat_completeness auto
termination
  by (relation "measure length") auto

declare scan_measures.simps [simp del]

text \<open>The double nearest to the decimal number a string of digits with an optional fraction denotes.\<close>

definition decimal_float :: "string \<Rightarrow> pyfloat" where
  "decimal_float N =
     (let ip = takeWhile (\<lambda>c. c \<noteq> CHR ''.'') N;
          fp = tl (dropWhile (\<lambda>c. c \<noteq> CHR ''.'') N)
      in round_double (of_nat (digits_val (ip @ fp)) / 10 ^ length fp))"

text \<open>A phrase is mentioned in a text when it is a substring of it, letter case ignored.\<close>

definition mentions :: "string \<Rightarrow> string \<Rightarrow> bool" where
  "mentions text phrase = py_in phrase (py_lower text)"

text \<open>
  The extension of a file name: what follows its last \<open>.\<close>, and the whole name when
  it has none.
\<close>

definition extension :: "string \<Rightarrow> string" where
  "extension filename = rev (takeWhile (\<lambda>c. c \<noteq> CHR ''.'') (rev filename))"

text \<open>
  The distinct names of a list in the order of their first appearance, and the pairs
  the duplicate detector is to emit: each name, in list order, with every distinct
  name seen before it that scores above 90.
\<close>

definition first_occurrences :: "'a list \<Rightarrow> 'a list" where
  "first_occurrences xs = rev (remdups (rev xs))"

definition dup_pairs :: "(string \<Rightarrow> string \<Rightarrow> int) \<Rightarrow> string list \<Rightarrow> (string \<times> string) list" where
  "dup_pairs ratio names =
     concat (map (\<lambda>i. map (\<lambda>s. (names ! i, s))
                          (filter (\<lambda>s. 90 < ratio (names ! i) s)
                                  (first_occurrences (take i names))))
                 [0..<length names])"

text \<open>
  The outcome of a run whose extractor returned \<open>r\<close>: the exception of the extractor,
  or the analysis of the text it read.
\<close>

definition after_read :: "env \<Rightarrow> exn + string \<Rightarrow> exn + report" where
  "after_read E r = (case r of Inl e \<Rightarrow> Inl e | Inr text \<Rightarrow> analyse E text)"

text \<open>
  An environment for the examples: every file reads as empty, a float is shown as
  \<open>v\<close>, two names are similar when they are equal, and the digit limit is the
  default.
\<close>

definition sample_env :: env where
  "sample_env =
     \<lparr>pdf_pages = (\<lambda>_ _. Inr []), ocr_image = (\<lambda>_ _. Inr []),
      dxf_entities = (\<lambda>_ _. Inr []), float_repr = (\<lambda>_. ''v''),
      fuzz_ratio = (\<lambda>a b. if a = b then 100 else 0), int_max_str_digits = 4300\<rparr>"

section \<open>Properties of the float model\<close>

lemma bit_length_bounds:
  "0 < n \<Longrightarrow> 2 ^ (bit_length n - 1) \<le> n \<and> n < 2 ^ bit_length n"
proof (induction n rule: bit_length.induct)
  case (1 n)
  show ?case
  proof (cases "n = 1")
    case True
    then show ?thesis by (simp add: bit_length.simps)
  next
    case False
    with "1.prems" have pos: "0 < n div 2" by simp
    with "1.prems" have ih: "2 ^ (bit_length (n div 2) - 1) \<le> n div 2"
      "n div 2 < 2 ^ bit_length (n div 2)"
      using "1.IH" by simp_all
    have bl: "bit_length n = Suc (bit_length (n div 2))"
      using "1.prems" by (subst bit_length.simps) simp
    have blpos: "0 < bit_length (n div 2)"
      using pos by (subst bit_length.simps) simp
    then obtain m where m: "bit_length (n div 2) = Suc m"
      by (cases "bit_length (n div 2)") auto
    show ?thesis
      using ih unfolding bl m by (simp; linarith)
  qed
qed

lemma powi_two_mono: "j \<le> k \<Longrightarrow> (2::rat) powi j \<le> 2 powi k"
  by (rule power_int_increasing) simp_all

lemma powi_two_pos: "0 < (2::rat) powi k"
  by simp

lemma floor_log2_bounds:
  assumes "0 < q"
  shows "2 powi floor_log2 q \<le> q \<and> q < 2 powi (floor_log2 q + 1)"
proof -
  obtain p d where pd: "quotient_of q = (p, d)" by (cases "quotient_of q")
  then have d: "0 < d" and q: "q = of_int p / of_int d"
    using quotient_of_denom_pos quotient_of_div by blast+
  with assms have p: "0 < p"
    by (simp add: zero_less_divide_iff)
  define bp where "bp = bit_length p"
  define bd where "bd = bit_length d"
  define k where "k = int bp - int bd"
  have P: "2 ^ (bp - 1) \<le> p" "p < 2 ^ bp" and D: "2 ^ (bd - 1) \<le> d" "d < 2 ^ bd"
    using bit_length_bounds[OF p] bit_length_bounds[OF d] by (simp_all add: bp_def bd_def)
  have bp0: "0 < bp" and bd0: "0 < bd"
    using p d by (simp_all add: bp_def bd_def bit_length.simps[of p] bit_length.simps[of d])
  have fl: "floor_log2 q = (if 2 powi k \<le> q then k else k - 1)"
    by (simp add: floor_log2_def pd k_def bp_def bd_def Let_def)
  have Pr: "(2::rat) ^ (bp - 1) \<le> of_int p" "(of_int p :: rat) < 2 ^ bp"
    using P by (metis of_int_le_iff of_int_numeral of_int_power,
        metis of_int_less_iff of_int_numeral of_int_power)
  have Dr: "(2::rat) ^ (bd - 1) \<le> of_int d" "(of_int d :: rat) < 2 ^ bd"
    using D by (metis of_int_le_iff of_int_numeral of_int_power,
        metis of_int_less_iff of_int_numeral of_int_power)
  have dpos: "(0::rat) < of_int d" using d by simp
  have upper: "q < 2 powi (k + 1)"
  proof -
    have "q * 2 ^ (bd - 1) \<le> q * of_int d"
      using Dr(1) assms by simp
    also have "\<dots> = of_int p" using q dpos by simp
    also have "\<dots> < 2 ^ bp" by (rule Pr(2))
    finally have "q < 2 ^ bp / 2 ^ (bd - 1)"
      by (simp add: pos_less_divide_eq)
    also have "\<dots> = 2 powi (int bp - int (bd - 1))"
      by (simp add: power_int_diff)
    also have "int bp - int (bd - 1) = k + 1"
      using bd0 by (simp add: k_def)
    finally show ?thesis .
  qed
  have lower: "2 powi (k - 1) \<le> q"
  proof -
    have "(2::rat) ^ (bp - 1) \<le> of_int p" by (rule Pr(1))
    also have "\<dots> = q * of_int d" using q dpos by simp
    also have "\<dots> \<le> q * 2 ^ bd" using Dr(2) assms by simp
    finally have "2 ^ (bp - 1) / 2 ^ bd \<le> q"
      by (simp add: pos_divide_le_eq)
    moreover have "(2::rat) ^ (bp - 1) / 2 ^ bd = 2 powi (int (bp - 1) - int bd)"
      by (simp add: power_int_diff)
    moreover have "int (bp - 1) - int bd = k - 1"
      using bp0 by (simp add: k_def)
    ultimately show ?thesis by simp
  qed
  show ?thesis
  proof (cases "2 powi k \<le> q")
    case True
    then show ?thesis using upper by (simp add: fl)
  next
    case False
    then show ?thesis using lower by (simp add: fl)
  qed
qed

lemma floor_log2_eq:
  assumes "2 powi k \<le> q" "q < 2 powi (k + 1)"
  shows "floor_log2 q = k"
proof -
  have "0 < q" using assms(1) powi_two_pos[of k] by linarith
  from floor_log2_bounds[OF this]
  obtain j where j: "j = floor_log2 q" "2 powi j \<le> q" "q < 2 powi (j + 1)"
    by blast
  have "\<not> j + 1 \<le> k"
  proof
    assume "j + 1 \<le> k"
    then have "(2::rat) powi (j + 1) \<le> 2 powi k" by (rule powi_two_mono)
    with assms(1) j(3) show False by linarith
  qed
  moreover have "\<not> k + 1 \<le> j"
  proof
    assume "k + 1 \<le> j"
    then have "(2::rat) powi (k + 1) \<le> 2 powi j" by (rule powi_two_mono)
    with assms(2) j(2) show False by linarith
  qed
  ultimately show ?thesis using j(1) by linarith
qed

lemma round_half_even_ge: "of_int m \<le> x \<Longrightarrow> m \<le> round_half_even x"
proof -
  assume "of_int m \<le> x"
  then have "m \<le> \<lfloor>x\<rfloor>" by (simp add: le_floor_iff)
  then show ?thesis by (simp add: round_half_even_def Let_def)
qed

lemma round_half_even_le: "x \<le> of_int m \<Longrightarrow> round_half_even x \<le> m"
proof (cases "x = of_int m")
  case True
  then show ?thesis by (simp add: round_half_even_def Let_def)
next
  case False
  assume "x \<le> of_int m"
  with False have "x < of_int m" by simp
  then have "\<lfloor>x\<rfloor> < m" by (simp add: floor_less_iff)
  then show ?thesis by (simp add: round_half_even_def Let_def)
qed

lemma round_half_even_near: "\<bar>x - of_int (round_half_even x)\<bar> \<le> 1 / 2"
proof -
  define f where "f = \<lfloor>x\<rfloor>"
  have b: "of_int f \<le> x" "x < of_int f + 1"
    unfolding f_def by linarith+
  have "round_half_even x = f \<and> x - of_int f \<le> 1 / 2
      \<or> round_half_even x = f + 1 \<and> 1 / 2 \<le> x - of_int f"
    unfolding round_half_even_def Let_def f_def[symmetric] by auto
  then show ?thesis
    using b by (auto simp: abs_if)
qed

text \<open>
  In the range of the normal doubles, rounding keeps 53 bits: with \<open>2^k \<le> |q| < 2^(k+1)\<close>
  the result is the multiple of \<open>2^(k-52)\<close> nearest to \<open>q\<close>.
\<close>

lemma round_double_normal:
  assumes lo: "2 powi k \<le> \<bar>q\<bar>" and hi: "\<bar>q\<bar> < 2 powi (k + 1)"
    and k: "- 1022 \<le> k" "k \<le> 1022"
  shows "round_double q =
    Finite ((if q < 0 then - 1 else 1) *
      (of_int (round_half_even (\<bar>q\<bar> / 2 powi (k - 52))) * 2 powi (k - 52)))"
proof -
  define e where "e = k - 52"
  define n where "n = round_half_even (\<bar>q\<bar> / 2 powi e)"
  define r :: rat where "r = of_int n * 2 powi e"
  have q0: "q \<noteq> 0"
  proof
    assume "q = 0"
    with lo have "(2::rat) powi k \<le> 0" by simp
    with powi_two_pos[of k] show False by linarith
  qed
  have fl: "floor_log2 \<bar>q\<bar> = k" using lo hi by (rule floor_log2_eq)
  have emax: "max (floor_log2 \<bar>q\<bar> - 52) (- 1074) = e" using k by (simp add: fl e_def)
  have epos: "(0::rat) < 2 powi e" by simp
  have "(2::rat) powi k = 2 powi e * 2 ^ 52"
    by (simp add: e_def power_int_diff)
  then have "of_int (2 ^ 52) \<le> \<bar>q\<bar> / 2 powi e"
    using lo epos by (simp add: pos_le_divide_eq mult.commute)
  then have nlo: "2 ^ 52 \<le> n" unfolding n_def by (rule round_half_even_ge)
  have "(2::rat) powi (k + 1) = 2 powi e * 2 ^ 53"
    by (simp add: e_def power_int_diff power_int_add)
  then have "\<bar>q\<bar> / 2 powi e \<le> of_int (2 ^ 53)"
    using hi epos by (simp add: pos_divide_le_eq mult.commute)
  then have nhi: "n \<le> 2 ^ 53" unfolding n_def by (rule round_half_even_le)
  have n0: "n \<noteq> 0" using nlo by auto
  have "r \<le> 2 ^ 53 * 2 powi e"
    unfolding r_def using nhi epos
    by (metis mult_le_cancel_right_pos of_int_le_iff of_int_numeral of_int_power)
  also have "\<dots> = 2 powi (k + 1)" by (simp add: e_def power_int_diff power_int_add)
  also have "\<dots> \<le> 2 powi 1023" using k by (intro powi_two_mono) simp
  also have "\<dots> < 2 powi 1024" by (intro power_int_strict_increasing) simp_all
  finally have "r < 2 ^ 1024" by simp
  then have novf: "\<not> (2::rat) ^ 1024 \<le> r" by simp
  have "round_double q = Finite (if q < 0 then - r else r)"
    unfolding round_double_def Let_def emax
    using q0 novf n0 by (simp only: r_def[symmetric] n_def[symmetric] if_False)
  then show ?thesis by (simp add: r_def n_def e_def)
qed

lemma floor_rat_numeral: "\<lfloor>numeral a / numeral b :: rat\<rfloor> = numeral a div numeral b"
  by (metis floor_divide_of_int_eq of_int_numeral)

lemmas round_eval = round_half_even_def Let_def floor_rat_numeral

lemma MIN_CEILING_HEIGHT_val:
  "float_literal (23 / 10) = Finite (2589569785738035 / 1125899906842624)"
  unfolding float_literal_def
  by (subst round_double_normal[where k=1]) (simp_all add: round_eval)

lemma MIN_CORRIDOR_WIDTH_val:
  "float_literal (9 / 10) = Finite (8106479329266893 / 9007199254740992)"
  unfolding float_literal_def
  by (subst round_double_normal[where k="-1"]) (simp_all add: round_eval)

lemma MIN_DOOR_WIDTH_reduced:
  "float_literal (381 / 500) = Finite (1715871458028159 / 2251799813685248)"
  unfolding float_literal_def
  by (subst round_double_normal[where k="-1"]) (simp_all add: round_eval)

lemma MIN_DOOR_WIDTH_val:
  "float_literal (762 / 1000) = Finite (1715871458028159 / 2251799813685248)"
  using MIN_DOOR_WIDTH_reduced by simp

lemmas minimum_vals = MIN_CEILING_HEIGHT_val MIN_CORRIDOR_WIDTH_val MIN_DOOR_WIDTH_val
  MIN_DOOR_WIDTH_reduced

lemma div_2500: "float_div_const (Finite 2500) 1000 = Finite (5 / 2)"
  by (simp, subst round_double_normal[where k=1]) (simp_all add: round_eval)

lemma div_500: "float_div_const (Finite 500) 1000 = Finite (1 / 2)"
  by (simp, subst round_double_normal[where k="-1"]) (simp_all add: round_eval)

lemma round_double_4: "round_double 4 = Finite 4"
  by (subst round_double_normal[where k=2]) (simp_all add: round_eval)

section \<open>Compliance checker: properties\<close>

lemma check_step_issues_of: "check_step fmt issues m = issues @ issues_of fmt m"
  by (cases m) (simp add: check_step_def issues_of_def thresholds_below_def to_meters_def
      MIN_CEILING_HEIGHT_def MIN_CORRIDOR_WIDTH_def MIN_DOOR_WIDTH_def Let_def)

lemma foldl_check_step:
  "foldl (check_step fmt) acc ms = acc @ concat (map (issues_of fmt) ms)"
  by (induction ms arbitrary: acc) (simp_all add: check_step_issues_of)

lemma thresholds_below_distinct: "distinct (thresholds_below v)"
  by (simp add: thresholds_below_def)

lemma set_thresholds_below: "set (thresholds_below v) = {k. float_lt v (minimum k)}"
proof -
  have "k \<in> set [Ceiling, Corridor, Door]" for k by (cases k) simp_all
  then have all: "set [Ceiling, Corridor, Door] = UNIV" by blast
  show ?thesis by (simp only: thresholds_below_def set_filter all) simp
qed

text \<open>
  C1. For every list of measurements the compliance checker normalises each value to
  meters (the value divided by 1000 for \<open>mm\<close>, by 100 for \<open>cm\<close>, unchanged for
  \<open>m\<close>) and emits, for each measurement on its own and in order, exactly one issue
  string for each of the three thresholds 2.3, 0.9 and 0.762 that the normalised value
  is strictly below. The measurement \<open>(2500, "mm")\<close> normalises to 2.5 and gives no
  issue; \<open>(500, "mm")\<close> normalises to 0.5 and gives all three.
\<close>

theorem compliance_issues_per_threshold:
  "check_compliance fmt ms = concat (map (issues_of fmt) ms)
   \<and> length (issues_of fmt m) = card {k. float_lt (to_meters m) (minimum k)}
   \<and> to_meters (v, ''mm'') = float_div_const v 1000
   \<and> to_meters (v, ''cm'') = float_div_const v 100
   \<and> to_meters (v, ''m'') = v
   \<and> to_meters (Finite 2500, ''mm'') = Finite (5 / 2)
   \<and> check_compliance fmt [(Finite 2500, ''mm'')] = []
   \<and> to_meters (Finite 500, ''mm'') = Finite (1 / 2)
   \<and> check_compliance fmt [(Finite 500, ''mm'')] =
        [''Ceiling height too low: '' @ fmt (Finite (1 / 2)) @ '' m'',
         ''Corridor width too small: '' @ fmt (Finite (1 / 2)) @ '' m'',
         ''Door width too small: '' @ fmt (Finite (1 / 2)) @ '' m'']"
proof -
  have a: "check_compliance fmt ms = concat (map (issues_of fmt) ms)" for ms
    by (simp add: check_compliance_def foldl_check_step)
  have b: "length (issues_of fmt m) = card {k. float_lt (to_meters m) (minimum k)}"
    using distinct_card[OF thresholds_below_distinct, of "to_meters m"]
    by (simp add: issues_of_def set_thresholds_below)
  have c: "to_meters (Finite 2500, ''mm'') = Finite (5 / 2)"
    "to_meters (Finite 500, ''mm'') = Finite (1 / 2)"
    by (simp_all add: to_meters_def div_2500 div_500 del: float_div_const.simps)
  have d: "issues_of fmt (Finite 2500, ''mm'') = []"
    by (simp add: issues_of_def thresholds_below_def c minimum_vals)
  have e: "issues_of fmt (Finite 500, ''mm'') =
        [''Ceiling height too low: '' @ fmt (Finite (1 / 2)) @ '' m'',
         ''Corridor width too small: '' @ fmt (Finite (1 / 2)) @ '' m'',
         ''Door width too small: '' @ fmt (Finite (1 / 2)) @ '' m'']"
    by (simp add: issues_of_def thresholds_below_def c minimum_vals)
  show ?thesis
    using b c by (simp add: a d e) (simp add: to_meters_def)
qed


lemma float_lt_trans_fin:
  "float_lt v (Finite a) \<Longrightarrow> a \<le> b \<Longrightarrow> float_lt v (Finite b)"
  by (cases v) auto

lemma check_single: "check_compliance fmt [m] = issues_of fmt m"
  by (simp add: check_compliance_def check_step_issues_of)

text \<open>
  C10. The three thresholds are nested, 0.762 < 0.9 < 2.3, so the issues of a single
  measurement with normalised value \<open>v\<close> form one of four lists: none when
  \<open>v \<ge> 2.3\<close>; the ceiling issue alone when \<open>0.9 \<le> v < 2.3\<close>; the ceiling and
  the corridor issue when \<open>0.762 \<le> v < 0.9\<close>; all three when \<open>v < 0.762\<close>. A
  door issue is never emitted without the corridor and the ceiling issue of the same
  measurement.
\<close>

theorem compliance_issue_sets_nested:
  "float_lt (minimum Door) (minimum Corridor) \<and> float_lt (minimum Corridor) (minimum Ceiling)
   \<and> (float_le (minimum Ceiling) (to_meters m) \<longrightarrow> check_compliance fmt [m] = [])
   \<and> (float_le (minimum Corridor) (to_meters m) \<and> float_lt (to_meters m) (minimum Ceiling) \<longrightarrow>
        check_compliance fmt [m] = [issue_string fmt Ceiling (to_meters m)])
   \<and> (float_le (minimum Door) (to_meters m) \<and> float_lt (to_meters m) (minimum Corridor) \<longrightarrow>
        check_compliance fmt [m] =
          [issue_string fmt Ceiling (to_meters m), issue_string fmt Corridor (to_meters m)])
   \<and> (float_lt (to_meters m) (minimum Door) \<longrightarrow>
        check_compliance fmt [m] =
          [issue_string fmt Ceiling (to_meters m), issue_string fmt Corridor (to_meters m),
           issue_string fmt Door (to_meters m)])
   \<and> check_compliance fmt [m] \<in>
        {[], [issue_string fmt Ceiling (to_meters m)],
         [issue_string fmt Ceiling (to_meters m), issue_string fmt Corridor (to_meters m)],
         [issue_string fmt Ceiling (to_meters m), issue_string fmt Corridor (to_meters m),
          issue_string fmt Door (to_meters m)]}
   \<and> (issue_string fmt Door (to_meters m) \<in> set (check_compliance fmt [m]) \<longrightarrow>
        issue_string fmt Corridor (to_meters m) \<in> set (check_compliance fmt [m])
        \<and> issue_string fmt Ceiling (to_meters m) \<in> set (check_compliance fmt [m]))"
proof -
  define v where "v = to_meters m"
  have dc: "float_lt v (minimum Door) \<Longrightarrow> float_lt v (minimum Corridor)"
    and cc: "float_lt v (minimum Corridor) \<Longrightarrow> float_lt v (minimum Ceiling)"
    by (simp_all add: minimum_vals) (erule float_lt_trans_fin, simp)+
  have neq: "issue_string fmt Door v \<noteq> issue_string fmt Ceiling v"
    "issue_string fmt Door v \<noteq> issue_string fmt Corridor v"
    by simp_all
  have nest: "float_lt (minimum Door) (minimum Corridor)" "float_lt (minimum Corridor) (minimum Ceiling)"
    by (simp_all add: minimum_vals)
  have iss: "check_compliance fmt [m] =
      map (\<lambda>k. issue_string fmt k v) (filter (\<lambda>k. float_lt v (minimum k)) [Ceiling, Corridor, Door])"
    by (simp add: check_single issues_of_def thresholds_below_def v_def)
  show ?thesis
    unfolding v_def[symmetric] iss float_le_def
    using dc cc neq nest by (auto simp del: minimum.simps issue_string.simps)
qed


lemma to_meters_2500: "to_meters (Finite 2500, ''mm'') = Finite (5 / 2)"
  by (simp add: to_meters_def div_2500 del: float_div_const.simps)

lemma to_meters_500: "to_meters (Finite 500, ''mm'') = Finite (1 / 2)"
  by (simp add: to_meters_def div_500 del: float_div_const.simps)

lemma to_meters_m: "to_meters (v, ''m'') = v"
  by (simp add: to_meters_def)

theorem compliance_issue_sets_nested_witness:
  "float_le (minimum Ceiling) (to_meters (Finite 2500, ''mm''))
   \<and> check_compliance (\<lambda>_. ''v'') [(Finite 2500, ''mm'')] = []
   \<and> float_le (minimum Corridor) (to_meters (Finite 1, ''m''))
   \<and> float_lt (to_meters (Finite 1, ''m'')) (minimum Ceiling)
   \<and> check_compliance (\<lambda>_. ''v'') [(Finite 1, ''m'')] = [''Ceiling height too low: v m'']
   \<and> float_le (minimum Door) (to_meters (Finite (13 / 16), ''m''))
   \<and> float_lt (to_meters (Finite (13 / 16), ''m'')) (minimum Corridor)
   \<and> check_compliance (\<lambda>_. ''v'') [(Finite (13 / 16), ''m'')] =
        [''Ceiling height too low: v m'', ''Corridor width too small: v m'']
   \<and> float_lt (to_meters (Finite 500, ''mm'')) (minimum Door)
   \<and> check_compliance (\<lambda>_. ''v'') [(Finite 500, ''mm'')] =
        [''Ceiling height too low: v m'', ''Corridor width too small: v m'',
         ''Door width too small: v m'']
   \<and> ''Door width too small: v m'' \<in> set (check_compliance (\<lambda>_. ''v'') [(Finite 500, ''mm'')])
   \<and> ''Corridor width too small: v m'' \<in> set (check_compliance (\<lambda>_. ''v'') [(Finite 500, ''mm'')])
   \<and> ''Ceiling height too low: v m'' \<in> set (check_compliance (\<lambda>_. ''v'') [(Finite 500, ''mm'')])"
proof -
  let ?F = "\<lambda>_::pyfloat. ''v''"
  have h1: "float_le (minimum Ceiling) (to_meters (Finite 2500, ''mm''))"
    by (simp add: float_le_def to_meters_2500 minimum_vals)
  have h2: "float_le (minimum Corridor) (to_meters (Finite 1, ''m''))
      \<and> float_lt (to_meters (Finite 1, ''m'')) (minimum Ceiling)"
    by (simp add: float_le_def to_meters_m minimum_vals)
  have h3: "float_le (minimum Door) (to_meters (Finite (13 / 16), ''m''))
      \<and> float_lt (to_meters (Finite (13 / 16), ''m'')) (minimum Corridor)"
    by (simp add: float_le_def to_meters_m minimum_vals)
  have h4: "float_lt (to_meters (Finite 500, ''mm'')) (minimum Door)"
    by (simp add: to_meters_500 minimum_vals)
  have c1: "check_compliance ?F [(Finite 2500, ''mm'')] = []"
    using compliance_issue_sets_nested[of "(Finite 2500, ''mm'')" ?F] h1 by blast
  have c2: "check_compliance ?F [(Finite 1, ''m'')] = [''Ceiling height too low: v m'']"
    using compliance_issue_sets_nested[of "(Finite 1, ''m'')" ?F] h2 by simp
  have c3: "check_compliance ?F [(Finite (13 / 16), ''m'')] =
        [''Ceiling height too low: v m'', ''Corridor width too small: v m'']"
    using compliance_issue_sets_nested[of "(Finite (13 / 16), ''m'')" ?F] h3 by simp
  have c4: "check_compliance ?F [(Finite 500, ''mm'')] =
        [''Ceiling height too low: v m'', ''Corridor width too small: v m'',
         ''Door width too small: v m'']"
    using compliance_issue_sets_nested[of "(Finite 500, ''mm'')" ?F] h4 by simp
  show ?thesis
    using h1 h2 h3 h4 by (simp add: c1 c2 c3 c4)
qed


section \<open>BOQ generator: properties\<close>

lemma boq_step_line: "boq_step acc m = acc @ [boq_line_of m]"
  by (cases m) (simp add: boq_step_def boq_line_of_def to_meters_def Let_def)

lemma foldl_boq_step: "foldl boq_step acc ms = acc @ map boq_line_of ms"
  by (induction ms arbitrary: acc) (simp_all add: boq_step_line)

lemma py_round2_nearest:
  "\<exists>k::int. \<bar>q * 100 - of_int k\<bar> \<le> 1 / 2
     \<and> (py_round2 (Finite q) = round_double (of_int k / 100)
         \<or> py_round2 (Finite q) = NegZero \<and> k = 0)"
proof -
  define k where "k = round_half_even (q * 100)"
  have "\<bar>q * 100 - of_int k\<bar> \<le> 1 / 2"
    unfolding k_def by (rule round_half_even_near)
  moreover have "py_round2 (Finite q) = round_double (of_int k / 100)
         \<or> py_round2 (Finite q) = NegZero \<and> k = 0"
    by (auto simp: k_def[symmetric] Let_def round_double_def)
  ultimately show ?thesis by blast
qed

lemma boq_2m: "boq_line_of (Finite 2, ''m'') = \<lparr>boq_material = ''Generic Material'', quantity_m2 = Finite 4\<rparr>"
  by (simp add: boq_line_of_def to_meters_m float_mul_def round_double_4 round_eval)

lemma round_double_quarters:
  "round_double (25 / 4) = Finite (25 / 4)" "round_double (1 / 4) = Finite (1 / 4)"
  by (subst round_double_normal[where k=2], simp_all add: round_eval,
      subst round_double_normal[where k="-2"], simp_all add: round_eval)

lemma div_50: "float_div_const (Finite 50) 100 = Finite (1 / 2)"
  by (simp, subst round_double_normal[where k="-1"]) (simp_all add: round_eval)

lemma boq_2500mm:
  "boq_line_of (Finite 2500, ''mm'') =
     \<lparr>boq_material = ''Generic Material'', quantity_m2 = Finite (25 / 4)\<rparr>"
  by (simp add: boq_line_of_def to_meters_2500 float_mul_def round_double_quarters round_eval)

lemma boq_50cm:
  "boq_line_of (Finite 50, ''cm'') =
     \<lparr>boq_material = ''Generic Material'', quantity_m2 = Finite (1 / 4)\<rparr>"
proof -
  have "to_meters (Finite 50, ''cm'') = Finite (1 / 2)"
    by (simp add: to_meters_def div_50 del: float_div_const.simps)
  then show ?thesis
    by (simp add: boq_line_of_def float_mul_def round_double_quarters round_eval)
qed


lemma round_double_156:
  "round_double (5 / 4) = Finite (5 / 4)" "round_double (25 / 16) = Finite (25 / 16)"
  "round_double (39 / 25) = Finite (3512807709348987 / 2251799813685248)"
  by (subst round_double_normal[where k=0], simp_all add: round_eval,
      subst round_double_normal[where k=0], simp_all add: round_eval,
      subst round_double_normal[where k=0], simp_all add: round_eval)

lemma div_1250: "float_div_const (Finite 1250) 1000 = Finite (5 / 4)"
  by (simp add: round_double_156)

lemma boq_1250mm:
  "boq_line_of (Finite 1250, ''mm'') =
     \<lparr>boq_material = ''Generic Material'',
      quantity_m2 = Finite (3512807709348987 / 2251799813685248)\<rparr>"
proof -
  have "to_meters (Finite 1250, ''mm'') = Finite (5 / 4)"
    by (simp add: to_meters_def div_1250 del: float_div_const.simps)
  then show ?thesis
    by (simp add: boq_line_of_def float_mul_def round_double_156 round_eval)
qed

text \<open>
  C4. For every measurement the quantity estimator normalises the value to meters
  (the value divided by 1000 for \<open>mm\<close>, by 100 for \<open>cm\<close>, unchanged for \<open>m\<close>),
  squares it, rounds the square to 2 decimal places and emits one BOQ line with the
  constant material label; the BOQ has one line per measurement, in order. The
  measurement \<open>(2, "m")\<close> gives the quantity 4, \<open>(2500, "mm")\<close> gives 6.25,
  \<open>(50, "cm")\<close> gives 0.25 and \<open>(1250, "mm")\<close>, whose square is 1.5625, gives 1.56.
\<close>

theorem boq_one_line_per_measurement:
  "generate_boq ms mats = map boq_line_of ms
   \<and> length (generate_boq ms mats) = length ms
   \<and> boq_material (boq_line_of m) = ''Generic Material''
   \<and> quantity_m2 (boq_line_of m) = py_round2 (float_mul (to_meters m) (to_meters m))
   \<and> to_meters (v, ''mm'') = float_div_const v 1000
   \<and> to_meters (v, ''cm'') = float_div_const v 100
   \<and> to_meters (v, ''m'') = v
   \<and> generate_boq [(v, ''mm'')] mats =
        [\<lparr>boq_material = ''Generic Material'',
          quantity_m2 = py_round2 (float_mul (float_div_const v 1000) (float_div_const v 1000))\<rparr>]
   \<and> generate_boq [(v, ''cm'')] mats =
        [\<lparr>boq_material = ''Generic Material'',
          quantity_m2 = py_round2 (float_mul (float_div_const v 100) (float_div_const v 100))\<rparr>]
   \<and> generate_boq [(v, ''m'')] mats =
        [\<lparr>boq_material = ''Generic Material'', quantity_m2 = py_round2 (float_mul v v)\<rparr>]
   \<and> (\<exists>k::int. \<bar>q * 100 - of_int k\<bar> \<le> 1 / 2
         \<and> (py_round2 (Finite q) = round_double (of_int k / 100)
             \<or> py_round2 (Finite q) = NegZero \<and> k = 0))
   \<and> generate_boq [(Finite 2, ''m'')] mats =
        [\<lparr>boq_material = ''Generic Material'', quantity_m2 = Finite 4\<rparr>]
   \<and> generate_boq [(Finite 2500, ''mm'')] mats =
        [\<lparr>boq_material = ''Generic Material'', quantity_m2 = Finite (25 / 4)\<rparr>]
   \<and> generate_boq [(Finite 50, ''cm'')] mats =
        [\<lparr>boq_material = ''Generic Material'', quantity_m2 = Finite (1 / 4)\<rparr>]
   \<and> generate_boq [(Finite 1250, ''mm'')] mats =
        [\<lparr>boq_material = ''Generic Material'',
          quantity_m2 = Finite (3512807709348987 / 2251799813685248)\<rparr>]
   \<and> generate_boq [(Finite 2, ''m''), (Finite 2500, ''mm''), (Finite 50, ''cm'')] mats =
        [\<lparr>boq_material = ''Generic Material'', quantity_m2 = Finite 4\<rparr>,
         \<lparr>boq_material = ''Generic Material'', quantity_m2 = Finite (25 / 4)\<rparr>,
         \<lparr>boq_material = ''Generic Material'', quantity_m2 = Finite (1 / 4)\<rparr>]"
proof -
  have a: "generate_boq xs mats = map boq_line_of xs" for xs
    by (simp add: generate_boq_def foldl_boq_step)
  have b: "boq_material (boq_line_of m) = ''Generic Material''"
    "quantity_m2 (boq_line_of m) = py_round2 (float_mul (to_meters m) (to_meters m))"
    by (simp_all add: boq_line_of_def)
  have tm: "to_meters (v, ''mm'') = float_div_const v 1000"
    "to_meters (v, ''cm'') = float_div_const v 100" "to_meters (v, ''m'') = v"
    by (simp_all add: to_meters_def)
  have g: "generate_boq [(v, ''mm'')] mats =
        [\<lparr>boq_material = ''Generic Material'',
          quantity_m2 = py_round2 (float_mul (float_div_const v 1000) (float_div_const v 1000))\<rparr>]"
    "generate_boq [(v, ''cm'')] mats =
        [\<lparr>boq_material = ''Generic Material'',
          quantity_m2 = py_round2 (float_mul (float_div_const v 100) (float_div_const v 100))\<rparr>]"
    "generate_boq [(v, ''m'')] mats =
        [\<lparr>boq_material = ''Generic Material'', quantity_m2 = py_round2 (float_mul v v)\<rparr>]"
    unfolding a by (simp_all add: boq_line_of_def tm)
  have c: "generate_boq [(Finite 2, ''m'')] mats =
        [\<lparr>boq_material = ''Generic Material'', quantity_m2 = Finite 4\<rparr>]"
    "generate_boq [(Finite 2500, ''mm'')] mats =
        [\<lparr>boq_material = ''Generic Material'', quantity_m2 = Finite (25 / 4)\<rparr>]"
    "generate_boq [(Finite 50, ''cm'')] mats =
        [\<lparr>boq_material = ''Generic Material'', quantity_m2 = Finite (1 / 4)\<rparr>]"
    "generate_boq [(Finite 1250, ''mm'')] mats =
        [\<lparr>boq_material = ''Generic Material'',
          quantity_m2 = Finite (3512807709348987 / 2251799813685248)\<rparr>]"
    "generate_boq [(Finite 2, ''m''), (Finite 2500, ''mm''), (Finite 50, ''cm'')] mats =
        [\<lparr>boq_material = ''Generic Material'', quantity_m2 = Finite 4\<rparr>,
         \<lparr>boq_material = ''Generic Material'', quantity_m2 = Finite (25 / 4)\<rparr>,
         \<lparr>boq_material = ''Generic Material'', quantity_m2 = Finite (1 / 4)\<rparr>]"
    unfolding a by (simp_all add: boq_2m boq_2500mm boq_50cm boq_1250mm)
  have l: "length (generate_boq ms mats) = length ms" by (simp add: a)
  show ?thesis
    by (intro conjI a l b tm g py_round2_nearest c)
qed


section \<open>Missing information detector: properties\<close>

lemmas char_eval = py_lower_def py_lower_char_def char_of_def bit_0 is_space_def is_digit_def

lemma py_in_iff: "py_in sub s \<longleftrightarrow> (\<exists>ps ss. s = ps @ sub @ ss)"
proof (induction s)
  case Nil
  show ?case by simp
next
  case (Cons c cs)
  show ?case
  proof
    assume "py_in sub (c # cs)"
    then have "prefix sub (c # cs) \<or> py_in sub cs" by simp
    then show "\<exists>ps ss. c # cs = ps @ sub @ ss"
    proof
      assume "prefix sub (c # cs)"
      then obtain ss where "c # cs = sub @ ss" by (rule prefixE)
      then have "c # cs = [] @ sub @ ss" by simp
      then show ?thesis by (intro exI)
    next
      assume "py_in sub cs"
      with Cons.IH obtain ps ss where "cs = ps @ sub @ ss" by blast
      then have "c # cs = (c # ps) @ sub @ ss" by simp
      then show ?thesis by (intro exI)
    qed
  next
    assume "\<exists>ps ss. c # cs = ps @ sub @ ss"
    then obtain ps ss where e: "c # cs = ps @ sub @ ss" by blast
    show "py_in sub (c # cs)"
    proof (cases ps)
      case Nil
      with e have "prefix sub (c # cs)" by (simp add: prefix_def)
      then show ?thesis by simp
    next
      case (Cons p ps')
      with e have "cs = ps' @ sub @ ss" by simp
      then have "\<exists>ps ss. cs = ps @ sub @ ss" by (intro exI)
      with Cons.IH have "py_in sub cs" by simp
      then show ?thesis by simp
    qed
  qed
qed

lemma map_eq_three:
  assumes e: "map f xs = a @ b @ c"
  shows "\<exists>p m s. xs = p @ m @ s \<and> map f m = b"
proof -
  define p where "p = take (length a) xs"
  define m where "m = take (length b) (drop (length a) xs)"
  define s where "s = drop (length b) (drop (length a) xs)"
  have "xs = p @ m @ s"
    unfolding p_def m_def s_def by (simp only: append_take_drop_id)
  moreover have "map f m = take (length b) (drop (length a) (map f xs))"
    unfolding m_def by (simp only: take_map drop_map)
  then have "map f m = b"
    unfolding e by simp
  ultimately have "xs = p @ m @ s \<and> map f m = b" by (rule conjI)
  then show ?thesis by (intro exI)
qed

lemma mentions_iff:
  "mentions text phrase \<longleftrightarrow> (\<exists>ps ms ss. text = ps @ ms @ ss \<and> py_lower ms = phrase)"
proof
  assume "mentions text phrase"
  then have "\<exists>ps' ss'. map py_lower_char text = ps' @ phrase @ ss'"
    unfolding mentions_def py_in_iff py_lower_def .
  then obtain ps' ss' where "map py_lower_char text = ps' @ phrase @ ss'"
    by (elim exE)
  then show "\<exists>ps ms ss. text = ps @ ms @ ss \<and> py_lower ms = phrase"
    unfolding py_lower_def by (rule map_eq_three)
next
  assume "\<exists>ps ms ss. text = ps @ ms @ ss \<and> py_lower ms = phrase"
  then obtain ps ms ss where t: "text = ps @ ms @ ss" and l: "py_lower ms = phrase"
    by (elim exE conjE)
  have "py_lower text = py_lower ps @ phrase @ py_lower ss"
    unfolding t l[symmetric] by (simp add: py_lower_def)
  then have "\<exists>ps' ss'. py_lower text = ps' @ phrase @ ss'"
    by (intro exI)
  then show "mentions text phrase"
    unfolding mentions_def py_in_iff .
qed

lemma detect_missing_info_eq:
  "detect_missing_info text =
     (if mentions text ''flooring'' then [] else [''Missing Flooring Information''])
     @ (if mentions text ''insulation'' then [] else [''Missing Insulation Information''])
     @ (if mentions text ''wall finish'' then [] else [''Missing Wall Finish Information''])"
  by (simp add: detect_missing_info_def mentions_def Let_def)

lemma flooring_installed_mentions:
  assumes "text = ps @ ''Flooring installed'' @ ss"
  shows "mentions text ''flooring''"
proof -
  have "text = ps @ ''Flooring'' @ ('' installed'' @ ss)" using assms by simp
  moreover have "py_lower ''Flooring'' = ''flooring''" by (simp add: char_eval)
  ultimately have "text = ps @ ''Flooring'' @ ('' installed'' @ ss) \<and> py_lower ''Flooring'' = ''flooring''"
    by (intro conjI)
  then have "\<exists>ps ms ss. text = ps @ ms @ ss \<and> py_lower ms = ''flooring''"
    by (intro exI)
  then show ?thesis unfolding mentions_iff .
qed

text \<open>
  C7. The completeness checker searches the whole text, letter case ignored, for the
  three phrases \<open>flooring\<close>, \<open>insulation\<close> and \<open>wall finish\<close> and emits one
  fixed message for each phrase that is absent, in that order. A text that contains
  \<open>Flooring installed\<close> and mentions neither insulation nor wall finish gives
  exactly the two messages for insulation and wall finish.
\<close>

theorem missing_info_per_absent_phrase:
  "detect_missing_info text =
     (if mentions text ''flooring'' then [] else [''Missing Flooring Information''])
     @ (if mentions text ''insulation'' then [] else [''Missing Insulation Information''])
     @ (if mentions text ''wall finish'' then [] else [''Missing Wall Finish Information''])
   \<and> (mentions text phrase \<longleftrightarrow> (\<exists>ps ms ss. text = ps @ ms @ ss \<and> py_lower ms = phrase))
   \<and> ((\<exists>ps ss. text = ps @ ''Flooring installed'' @ ss)
        \<and> \<not> mentions text ''insulation'' \<and> \<not> mentions text ''wall finish'' \<longrightarrow>
      detect_missing_info text =
        [''Missing Insulation Information'', ''Missing Wall Finish Information''])"
proof -
  have c: "(\<exists>ps ss. text = ps @ ''Flooring installed'' @ ss)
        \<and> \<not> mentions text ''insulation'' \<and> \<not> mentions text ''wall finish'' \<longrightarrow>
      detect_missing_info text =
        [''Missing Insulation Information'', ''Missing Wall Finish Information'']"
  proof (intro impI, elim conjE exE)
    fix ps ss
    assume t: "text = ps @ ''Flooring installed'' @ ss"
      and n: "\<not> mentions text ''insulation''" "\<not> mentions text ''wall finish''"
    from t have "mentions text ''flooring''" by (rule flooring_installed_mentions)
    with n show "detect_missing_info text =
        [''Missing Insulation Information'', ''Missing Wall Finish Information'']"
      by (simp add: detect_missing_info_eq)
  qed
  show ?thesis
    by (intro conjI detect_missing_info_eq mentions_iff c)
qed

theorem missing_info_per_absent_phrase_witness:
  "(\<exists>ps ss. ''Flooring installed'' = ps @ ''Flooring installed'' @ ss)
   \<and> \<not> mentions ''Flooring installed'' ''insulation''
   \<and> \<not> mentions ''Flooring installed'' ''wall finish''
   \<and> detect_missing_info ''Flooring installed'' =
        [''Missing Insulation Information'', ''Missing Wall Finish Information'']"
proof -
  have h1: "\<exists>ps ss. ''Flooring installed'' = ps @ ''Flooring installed'' @ ss"
    by (rule exI[of _ "[]"], rule exI[of _ "[]"]) simp
  have h2: "\<not> mentions ''Flooring installed'' ''insulation''"
    "\<not> mentions ''Flooring installed'' ''wall finish''"
    by (simp_all add: mentions_def char_eval)
  note th = missing_info_per_absent_phrase[of "''Flooring installed''" "[]"]
  have c: "detect_missing_info ''Flooring installed'' =
        [''Missing Insulation Information'', ''Missing Wall Finish Information'']"
    by (rule mp[OF conjunct2[OF conjunct2[OF th]]]) (intro conjI h1 h2)
  show ?thesis
    by (intro conjI h1 h2 c)
qed

section \<open>The agent: properties\<close>

lemma py_split_nosep: "sep \<notin> set s \<Longrightarrow> py_split sep s = [s]"
  by (induction s) auto

lemma py_split_ne: "py_split sep s \<noteq> []"
  by (induction s) (simp_all split: list.split)

lemma takeWhile_snoc_sep:
  "takeWhile (\<lambda>c. c \<noteq> sep) (xs @ [sep]) = takeWhile (\<lambda>c. c \<noteq> sep) xs"
  by (induction xs) simp_all

lemma takeWhile_snoc_other:
  "c \<noteq> sep \<Longrightarrow> takeWhile (\<lambda>c. c \<noteq> sep) (xs @ [c]) =
     (if sep \<in> set xs then takeWhile (\<lambda>c. c \<noteq> sep) xs else xs @ [c])"
  by (induction xs) simp_all

lemma py_split_single: "py_split sep s = [w] \<Longrightarrow> sep \<notin> set s"
proof (induction s arbitrary: w)
  case Nil
  then show ?case by simp
next
  case (Cons c cs)
  show ?case
  proof (cases "c = sep")
    case True
    with Cons.prems py_split_ne[of sep cs] show ?thesis by simp
  next
    case False
    obtain v vs where vs: "py_split sep cs = v # vs"
      using py_split_ne[of sep cs] by (cases "py_split sep cs") auto
    with Cons.prems False have "vs = []" by simp
    with vs Cons.IH have "sep \<notin> set cs" by simp
    with False show ?thesis by simp
  qed
qed

lemma last_py_split:
  "last (py_split sep s) = rev (takeWhile (\<lambda>c. c \<noteq> sep) (rev s))"
proof (induction s)
  case Nil
  show ?case by simp
next
  case (Cons c cs)
  show ?case
  proof (cases "c = sep")
    case True
    then show ?thesis
      using Cons.IH py_split_ne[of sep cs] by (simp add: takeWhile_snoc_sep)
  next
    case False
    obtain v vs where vs: "py_split sep cs = v # vs"
      using py_split_ne[of sep cs] by (cases "py_split sep cs") auto
    show ?thesis
    proof (cases "sep \<in> set cs")
      case True
      with vs py_split_single[of sep cs v] have "vs \<noteq> []" by auto
      with vs False True Cons.IH show ?thesis
        by (simp add: takeWhile_snoc_other)
    next
      case nosep: False
      then have "py_split sep cs = [cs]" by (rule py_split_nosep)
      with False nosep show ?thesis
        by (simp add: takeWhile_snoc_other)
    qed
  qed
qed

lemma py_last_split: "py_last (py_split CHR ''.'' filename) = Inr (extension filename)"
proof -
  obtain x xs where r: "rev (py_split CHR ''.'' filename) = x # xs"
    using py_split_ne[of "CHR ''.''" filename]
    by (cases "rev (py_split CHR ''.'' filename)") auto
  then have "py_split CHR ''.'' filename = rev xs @ [x]"
    by (simp add: rev_swap)
  then have "last (py_split CHR ''.'' filename) = x" by simp
  then have "x = extension filename"
    by (simp add: last_py_split extension_def)
  with r show ?thesis by (simp add: py_last_def)
qed

lemma extension_after_last_dot:
  assumes "filename = pre @ ''.'' @ suf" "CHR ''.'' \<notin> set suf"
  shows "extension filename = suf"
proof -
  have "takeWhile (\<lambda>c. c \<noteq> CHR ''.'') (rev suf @ CHR ''.'' # rev pre) = rev suf"
    using assms(2) by (intro takeWhile_tail[THEN trans]) (auto simp: takeWhile_eq_all_conv)
  then show ?thesis
    using assms(1) by (simp add: extension_def)
qed

lemma extension_no_dot:
  assumes "CHR ''.'' \<notin> set filename"
  shows "extension filename = filename"
proof -
  have e: "takeWhile (\<lambda>c. c \<noteq> CHR ''.'') (rev filename) = rev filename"
    using assms by (auto simp: takeWhile_eq_all_conv)
  show ?thesis unfolding extension_def e by simp
qed

lemma process_routing:
  "process E up filename =
     (let out = [Printed (''Processing file: '' @ filename)]; ext = py_lower (extension filename)
      in if ext = ''pdf'' then
           (out @ [CalledReadPdf filename], after_read E (read_pdf E up filename))
         else if ext \<in> set [''png'', ''jpg'', ''jpeg''] then
           (out @ [CalledReadImage filename], after_read E (read_image E up filename))
         else if ext = ''dwg'' then
           (out @ [CalledReadDwg filename], after_read E (read_dwg E up filename))
         else (out, Inl (ValueError ''Unsupported file type'')))"
  unfolding process_def py_last_split Let_def after_read_def
  by (simp split: sum.split)


lemma exts_eval:
  "py_lower (extension ''drawing.txt'') = ''txt''"
  "py_lower (extension ''pdf'') = ''pdf''"
  "py_lower (extension ''png'') = ''png''"
  "py_lower (extension ''jpg'') = ''jpg''"
  "py_lower (extension ''jpeg'') = ''jpeg''"
  "py_lower (extension ''dwg'') = ''dwg''"
  "py_lower (extension ''a.b.pdf'') = ''pdf''"
  "py_lower (extension ''a.b.PDF'') = ''pdf''"
  "py_lower (extension ''plan.JPG'') = ''jpg''"
  "py_lower (extension ''x.dwg'') = ''dwg''"
  by (simp_all add: extension_def char_eval)

text \<open>
  C6. Processing a file name whose extension, in lower case, is none of \<open>pdf\<close>,
  \<open>png\<close>, \<open>jpg\<close>, \<open>jpeg\<close>, \<open>dwg\<close> raises the unsupported-file-type error before
  any extractor is called, and gives no report.
\<close>

theorem unsupported_extension_raises:
  "(py_lower (extension filename) \<notin> set [''pdf'', ''png'', ''jpg'', ''jpeg'', ''dwg''] \<longrightarrow>
      process E up filename =
        ([Printed (''Processing file: '' @ filename)],
         Inl (ValueError ''Unsupported file type'')))
   \<and> process E up ''drawing.txt'' =
        ([Printed ''Processing file: drawing.txt''], Inl (ValueError ''Unsupported file type''))"
proof -
  have a: "py_lower (extension filename) \<notin> set [''pdf'', ''png'', ''jpg'', ''jpeg'', ''dwg''] \<longrightarrow>
      process E up filename =
        ([Printed (''Processing file: '' @ filename)],
         Inl (ValueError ''Unsupported file type''))"
    unfolding process_routing Let_def by simp
  have b: "process E up ''drawing.txt'' =
        ([Printed ''Processing file: drawing.txt''], Inl (ValueError ''Unsupported file type''))"
    unfolding process_routing Let_def exts_eval by simp
  show ?thesis by (intro conjI a b)
qed

theorem unsupported_extension_raises_witness:
  "py_lower (extension ''drawing.txt'') \<notin> set [''pdf'', ''png'', ''jpg'', ''jpeg'', ''dwg'']
   \<and> process sample_env ''uploads'' ''drawing.txt'' =
        ([Printed (''Processing file: '' @ ''drawing.txt'')],
         Inl (ValueError ''Unsupported file type''))"
proof -
  have h: "py_lower (extension ''drawing.txt'') \<notin> set [''pdf'', ''png'', ''jpg'', ''jpeg'', ''dwg'']"
    unfolding exts_eval by simp
  note th = unsupported_extension_raises[of "''drawing.txt''" sample_env "''uploads''"]
  have c: "process sample_env ''uploads'' ''drawing.txt'' =
        ([Printed (''Processing file: '' @ ''drawing.txt'')],
         Inl (ValueError ''Unsupported file type''))"
    by (rule mp[OF conjunct1[OF th] h])
  show ?thesis by (intro conjI h c)
qed

text \<open>
  C9. The routing looks only at what follows the last \<open>.\<close> of the file name, and a
  name without \<open>.\<close> is routed by the whole name in lower case: a file named \<open>pdf\<close>
  (or \<open>png\<close>, \<open>jpg\<close>, \<open>jpeg\<close>, \<open>dwg\<close>) goes to the extractor of that type and
  does not raise the unsupported-file-type error, and \<open>a.b.pdf\<close> is read as a PDF.
\<close>

theorem extension_routing:
  "(filename = pre @ ''.'' @ suf \<and> CHR ''.'' \<notin> set suf \<longrightarrow> extension filename = suf)
   \<and> (CHR ''.'' \<notin> set filename \<longrightarrow> extension filename = filename)
   \<and> (py_lower (extension filename) = ''pdf'' \<longrightarrow>
        process E up filename =
          ([Printed (''Processing file: '' @ filename), CalledReadPdf filename],
           after_read E (read_pdf E up filename)))
   \<and> (py_lower (extension filename) \<in> set [''png'', ''jpg'', ''jpeg''] \<longrightarrow>
        process E up filename =
          ([Printed (''Processing file: '' @ filename), CalledReadImage filename],
           after_read E (read_image E up filename)))
   \<and> (py_lower (extension filename) = ''dwg'' \<longrightarrow>
        process E up filename =
          ([Printed (''Processing file: '' @ filename), CalledReadDwg filename],
           after_read E (read_dwg E up filename)))
   \<and> process E up ''pdf'' =
        ([Printed ''Processing file: pdf'', CalledReadPdf ''pdf''],
         after_read E (read_pdf E up ''pdf''))
   \<and> process E up ''png'' =
        ([Printed ''Processing file: png'', CalledReadImage ''png''],
         after_read E (read_image E up ''png''))
   \<and> process E up ''jpg'' =
        ([Printed ''Processing file: jpg'', CalledReadImage ''jpg''],
         after_read E (read_image E up ''jpg''))
   \<and> process E up ''jpeg'' =
        ([Printed ''Processing file: jpeg'', CalledReadImage ''jpeg''],
         after_read E (read_image E up ''jpeg''))
   \<and> process E up ''dwg'' =
        ([Printed ''Processing file: dwg'', CalledReadDwg ''dwg''],
         after_read E (read_dwg E up ''dwg''))
   \<and> process E up ''a.b.pdf'' =
        ([Printed ''Processing file: a.b.pdf'', CalledReadPdf ''a.b.pdf''],
         after_read E (read_pdf E up ''a.b.pdf''))"
proof -
  have a: "filename = pre @ ''.'' @ suf \<and> CHR ''.'' \<notin> set suf \<longrightarrow> extension filename = suf"
    using extension_after_last_dot[of filename pre suf] by (intro impI) (elim conjE)
  have b: "CHR ''.'' \<notin> set filename \<longrightarrow> extension filename = filename"
    using extension_no_dot[of filename] by (intro impI)
  have c: "py_lower (extension filename) = ''pdf'' \<longrightarrow>
        process E up filename =
          ([Printed (''Processing file: '' @ filename), CalledReadPdf filename],
           after_read E (read_pdf E up filename))"
    unfolding process_routing Let_def by simp
  have d: "py_lower (extension filename) \<in> set [''png'', ''jpg'', ''jpeg''] \<longrightarrow>
        process E up filename =
          ([Printed (''Processing file: '' @ filename), CalledReadImage filename],
           after_read E (read_image E up filename))"
    unfolding process_routing Let_def by auto
  have e: "py_lower (extension filename) = ''dwg'' \<longrightarrow>
        process E up filename =
          ([Printed (''Processing file: '' @ filename), CalledReadDwg filename],
           after_read E (read_dwg E up filename))"
    unfolding process_routing Let_def by simp
  have f: "process E up ''pdf'' =
        ([Printed ''Processing file: pdf'', CalledReadPdf ''pdf''],
         after_read E (read_pdf E up ''pdf''))"
    "process E up ''png'' =
        ([Printed ''Processing file: png'', CalledReadImage ''png''],
         after_read E (read_image E up ''png''))"
    "process E up ''jpg'' =
        ([Printed ''Processing file: jpg'', CalledReadImage ''jpg''],
         after_read E (read_image E up ''jpg''))"
    "process E up ''jpeg'' =
        ([Printed ''Processing file: jpeg'', CalledReadImage ''jpeg''],
         after_read E (read_image E up ''jpeg''))"
    "process E up ''dwg'' =
        ([Printed ''Processing file: dwg'', CalledReadDwg ''dwg''],
         after_read E (read_dwg E up ''dwg''))"
    "process E up ''a.b.pdf'' =
        ([Printed ''Processing file: a.b.pdf'', CalledReadPdf ''a.b.pdf''],
         after_read E (read_pdf E up ''a.b.pdf''))"
    unfolding process_routing Let_def exts_eval by simp_all
  show ?thesis by (intro conjI a b c d e f)
qed

theorem extension_routing_witness:
  "''a.b.PDF'' = ''a.b'' @ ''.'' @ ''PDF'' \<and> CHR ''.'' \<notin> set ''PDF''
   \<and> extension ''a.b.PDF'' = ''PDF''
   \<and> CHR ''.'' \<notin> set ''pdf'' \<and> extension ''pdf'' = ''pdf''
   \<and> py_lower (extension ''a.b.PDF'') = ''pdf''
   \<and> process sample_env ''uploads'' ''a.b.PDF'' =
        ([Printed (''Processing file: '' @ ''a.b.PDF''), CalledReadPdf ''a.b.PDF''],
         after_read sample_env (read_pdf sample_env ''uploads'' ''a.b.PDF''))
   \<and> py_lower (extension ''plan.JPG'') \<in> set [''png'', ''jpg'', ''jpeg'']
   \<and> process sample_env ''uploads'' ''plan.JPG'' =
        ([Printed (''Processing file: '' @ ''plan.JPG''), CalledReadImage ''plan.JPG''],
         after_read sample_env (read_image sample_env ''uploads'' ''plan.JPG''))
   \<and> py_lower (extension ''x.dwg'') = ''dwg''
   \<and> process sample_env ''uploads'' ''x.dwg'' =
        ([Printed (''Processing file: '' @ ''x.dwg''), CalledReadDwg ''x.dwg''],
         after_read sample_env (read_dwg sample_env ''uploads'' ''x.dwg''))"
proof -
  note t1 = extension_routing[of "''a.b.PDF''" "''a.b''" "''PDF''" sample_env "''uploads''"]
  note t2 = extension_routing[of "''pdf''" "[]" "[]" sample_env "''uploads''"]
  note t3 = extension_routing[of "''plan.JPG''" "[]" "[]" sample_env "''uploads''"]
  note t4 = extension_routing[of "''x.dwg''" "[]" "[]" sample_env "''uploads''"]
  have h1: "''a.b.PDF'' = ''a.b'' @ ''.'' @ ''PDF'' \<and> CHR ''.'' \<notin> set ''PDF''" by simp
  have h2: "CHR ''.'' \<notin> set ''pdf''" by simp
  have h3: "py_lower (extension ''a.b.PDF'') = ''pdf''" by (rule exts_eval)
  have h4: "py_lower (extension ''plan.JPG'') \<in> set [''png'', ''jpg'', ''jpeg'']"
    unfolding exts_eval by simp
  have h5: "py_lower (extension ''x.dwg'') = ''dwg''" by (rule exts_eval)
  have c1: "extension ''a.b.PDF'' = ''PDF''"
    by (rule mp[OF conjunct1[OF t1] h1])
  have c2: "extension ''pdf'' = ''pdf''"
    by (rule mp[OF conjunct1[OF conjunct2[OF t2]] h2])
  have c3: "process sample_env ''uploads'' ''a.b.PDF'' =
        ([Printed (''Processing file: '' @ ''a.b.PDF''), CalledReadPdf ''a.b.PDF''],
         after_read sample_env (read_pdf sample_env ''uploads'' ''a.b.PDF''))"
    by (rule mp[OF conjunct1[OF conjunct2[OF conjunct2[OF t1]]] h3])
  have c4: "process sample_env ''uploads'' ''plan.JPG'' =
        ([Printed (''Processing file: '' @ ''plan.JPG''), CalledReadImage ''plan.JPG''],
         after_read sample_env (read_image sample_env ''uploads'' ''plan.JPG''))"
    by (rule mp[OF conjunct1[OF conjunct2[OF conjunct2[OF conjunct2[OF t3]]]] h4])
  have c5: "process sample_env ''uploads'' ''x.dwg'' =
        ([Printed (''Processing file: '' @ ''x.dwg''), CalledReadDwg ''x.dwg''],
         after_read sample_env (read_dwg sample_env ''uploads'' ''x.dwg''))"
    by (rule mp[OF conjunct1[OF conjunct2[OF conjunct2[OF conjunct2[OF conjunct2[OF t4]]]]] h5])
  show ?thesis
    by (intro conjI conjunct1[OF h1] conjunct2[OF h1] h2 h3 h4 h5 c1 c2 c3 c4 c5)
qed

section \<open>Duplicate material detector: properties\<close>

lemma foldl_dup_inner:
  "foldl (\<lambda>d s. if P s then d @ [(n, s)] else d) acc seen = acc @ map (Pair n) (filter P seen)"
  by (induction seen arbitrary: acc) simp_all

lemma dup_step_eq:
  "dup_step ratio (dups, seen) mat =
     (dups @ map (Pair (material mat)) (filter (\<lambda>s. 90 < ratio (material mat) s) seen),
      if material mat \<in> set seen then seen else seen @ [material mat])"
  by (simp add: dup_step_def Let_def foldl_dup_inner)

lemma first_occurrences_snoc:
  "first_occurrences (xs @ [x]) =
     (if x \<in> set xs then first_occurrences xs else first_occurrences xs @ [x])"
  by (simp add: first_occurrences_def)

lemma set_first_occurrences: "set (first_occurrences xs) = set xs"
  by (simp add: first_occurrences_def)

lemma dup_pairs_snoc:
  "dup_pairs ratio (xs @ [x]) =
     dup_pairs ratio xs @ map (Pair x) (filter (\<lambda>s. 90 < ratio x s) (first_occurrences xs))"
proof -
  have "map (\<lambda>i. map (Pair ((xs @ [x]) ! i))
                 (filter (\<lambda>s. 90 < ratio ((xs @ [x]) ! i) s)
                         (first_occurrences (take i (xs @ [x])))))
            [0..<length xs]
      = map (\<lambda>i. map (Pair (xs ! i))
                 (filter (\<lambda>s. 90 < ratio (xs ! i) s) (first_occurrences (take i xs))))
            [0..<length xs]"
    (is "?l = ?r")
    by (rule map_cong) (simp_all add: nth_append)
  then have "concat ?l = concat ?r" by (rule arg_cong)
  moreover have "[0..<length (xs @ [x])] = [0..<length xs] @ [length xs]" by simp
  ultimately show ?thesis
    unfolding dup_pairs_def by (simp only: map_append concat_append) simp
qed

lemma foldl_dup_step:
  "foldl (dup_step ratio) ([], []) mats =
     (dup_pairs ratio (map material mats), first_occurrences (map material mats))"
proof (induction mats rule: rev_induct)
  case Nil
  show ?case by (simp add: dup_pairs_def first_occurrences_def)
next
  case (snoc mat mats)
  then show ?case
    by (simp add: dup_step_eq dup_pairs_snoc first_occurrences_snoc set_first_occurrences)
qed

lemma detect_duplicates_eq:
  "detect_duplicates ratio mats = dup_pairs ratio (map material mats)"
  by (simp add: detect_duplicates_def foldl_dup_step)

lemma dup_pairs_mem:
  "(a, b) \<in> set (dup_pairs ratio names) \<longleftrightarrow>
     (\<exists>i. i < length names \<and> a = names ! i \<and> b \<in> set (take i names) \<and> 90 < ratio a b)"
  by (auto simp: dup_pairs_def set_first_occurrences)


lemma detect_two:
  "detect_duplicates ratio [a, b] =
     (if 90 < ratio (material b) (material a) then [(material b, material a)] else [])"
  by (simp add: detect_duplicates_def dup_step_eq)

text \<open>
  C5. The duplicate detector goes through the material names in list order and, before
  it records a name as seen, compares it with every distinct name seen before,
  emitting the pair exactly when the similarity score is above 90. Two entries both
  named \<open>Timber\<close> give a pair; \<open>Timber\<close> followed by \<open>Concrete\<close> gives none.
\<close>

theorem duplicates_above_threshold:
  "detect_duplicates ratio mats = dup_pairs ratio (map material mats)
   \<and> ((x, y) \<in> set (detect_duplicates ratio mats) \<longleftrightarrow>
        (\<exists>i. i < length mats \<and> x = material (mats ! i)
             \<and> y \<in> set (map material (take i mats)) \<and> 90 < ratio x y))
   \<and> (material a = ''Timber'' \<and> material b = ''Timber'' \<and> 90 < ratio ''Timber'' ''Timber'' \<longrightarrow>
        detect_duplicates ratio [a, b] = [(''Timber'', ''Timber'')])
   \<and> (material a = ''Timber'' \<and> material b = ''Concrete''
        \<and> \<not> 90 < ratio ''Concrete'' ''Timber'' \<longrightarrow>
        detect_duplicates ratio [a, b] = [])"
proof -
  have m: "(x, y) \<in> set (detect_duplicates ratio mats) \<longleftrightarrow>
        (\<exists>i. i < length mats \<and> x = material (mats ! i)
             \<and> y \<in> set (map material (take i mats)) \<and> 90 < ratio x y)"
    unfolding detect_duplicates_eq dup_pairs_mem
    by (rule ex_cong1) (auto simp: take_map)
  have t: "material a = ''Timber'' \<and> material b = ''Timber'' \<and> 90 < ratio ''Timber'' ''Timber'' \<longrightarrow>
        detect_duplicates ratio [a, b] = [(''Timber'', ''Timber'')]"
    unfolding detect_two by (intro impI, elim conjE) (simp only: if_True)
  have c: "material a = ''Timber'' \<and> material b = ''Concrete''
        \<and> \<not> 90 < ratio ''Concrete'' ''Timber'' \<longrightarrow>
        detect_duplicates ratio [a, b] = []"
    unfolding detect_two by (intro impI, elim conjE) (simp only: if_False)
  show ?thesis by (intro conjI detect_duplicates_eq m t c)
qed

theorem duplicates_above_threshold_witness:
  "material \<lparr>material = ''Timber'', mat_type = [], thickness = []\<rparr> = ''Timber''
   \<and> material \<lparr>material = ''Concrete'', mat_type = [], thickness = []\<rparr> = ''Concrete''
   \<and> 90 < fuzz_ratio sample_env ''Timber'' ''Timber''
   \<and> \<not> 90 < fuzz_ratio sample_env ''Concrete'' ''Timber''
   \<and> detect_duplicates (fuzz_ratio sample_env)
        [\<lparr>material = ''Timber'', mat_type = [], thickness = []\<rparr>,
         \<lparr>material = ''Timber'', mat_type = [], thickness = []\<rparr>] = [(''Timber'', ''Timber'')]
   \<and> detect_duplicates (fuzz_ratio sample_env)
        [\<lparr>material = ''Timber'', mat_type = [], thickness = []\<rparr>,
         \<lparr>material = ''Concrete'', mat_type = [], thickness = []\<rparr>] = []"
proof -
  let ?T = "\<lparr>material = ''Timber'', mat_type = [], thickness = []\<rparr>"
  let ?C = "\<lparr>material = ''Concrete'', mat_type = [], thickness = []\<rparr>"
  let ?R = "fuzz_ratio sample_env"
  have h1: "material ?T = ''Timber''" and h2: "material ?C = ''Concrete''" by simp_all
  have h3: "90 < ?R ''Timber'' ''Timber''" by (simp add: sample_env_def)
  have h4: "\<not> 90 < ?R ''Concrete'' ''Timber''" by (simp add: sample_env_def)
  note t1 = duplicates_above_threshold[of ?R "[]" "[]" "[]" ?T ?T]
  note t2 = duplicates_above_threshold[of ?R "[]" "[]" "[]" ?T ?C]
  have c1: "detect_duplicates ?R [?T, ?T] = [(''Timber'', ''Timber'')]"
    by (rule mp[OF conjunct1[OF conjunct2[OF conjunct2[OF t1]]]]) (intro conjI h1 h3)
  have c2: "detect_duplicates ?R [?T, ?C] = []"
    by (rule mp[OF conjunct2[OF conjunct2[OF conjunct2[OF t2]]]]) (intro conjI h1 h2 h4)
  show ?thesis by (intro conjI h1 h2 h3 h4 c1 c2)
qed

section \<open>Searching: properties\<close>

lemmas rx_eval = Plus_def Lit_def ILit_def rx_match_at_def group_def digits_val_def digit_val_def
  py_int_def

lemma all_le_drop_Cons:
  "(\<forall>k\<le>length (c # cs). P (drop k (c # cs))) \<longleftrightarrow> P (c # cs) \<and> (\<forall>k\<le>length cs. P (drop k cs))"
proof
  assume a: "\<forall>k\<le>length (c # cs). P (drop k (c # cs))"
  have "P (drop 0 (c # cs))" using a by blast
  moreover have "P (drop k cs)" if "k \<le> length cs" for k
    using a[rule_format, of "Suc k"] that by simp
  ultimately show "P (c # cs) \<and> (\<forall>k\<le>length cs. P (drop k cs))" by simp
next
  assume a: "P (c # cs) \<and> (\<forall>k\<le>length cs. P (drop k cs))"
  show "\<forall>k\<le>length (c # cs). P (drop k (c # cs))"
  proof (intro allI impI)
    fix k assume "k \<le> length (c # cs)"
    then show "P (drop k (c # cs))" using a by (cases k) simp_all
  qed
qed

lemma rx_search_None_iff:
  "rx_search r s = None \<longleftrightarrow> (\<forall>k\<le>length s. rx_match_at r (drop k s) = None)"
proof (induction s)
  case Nil
  show ?case by simp
next
  case (Cons c cs)
  note sp = all_le_drop_Cons[of c cs "\<lambda>s. rx_match_at r s = None"]
  show ?case
    unfolding sp Cons.IH[symmetric]
    by (simp split: option.split)
qed

lemma rx_search_first:
  "k \<le> length s \<Longrightarrow> (\<forall>j<k. rx_match_at r (drop j s) = None) \<Longrightarrow>
   rx_match_at r (drop k s) = Some m \<Longrightarrow> rx_search r s = Some (snd m)"
proof (induction s arbitrary: k)
  case Nil
  then show ?case by simp
next
  case (Cons c cs)
  show ?case
  proof (cases k)
    case 0
    with Cons.prems show ?thesis by simp
  next
    case (Suc k')
    have "rx_match_at r (c # cs) = None"
      using Cons.prems(2)[rule_format, of 0] Suc by simp
    moreover have "rx_search r cs = Some (snd m)"
    proof (rule Cons.IH[of k'])
      show "k' \<le> length cs" using Cons.prems(1) Suc by simp
      show "\<forall>j<k'. rx_match_at r (drop j cs) = None"
      proof (intro allI impI)
        fix j assume "j < k'"
        then show "rx_match_at r (drop j cs) = None"
          using Cons.prems(2)[rule_format, of "Suc j"] Suc by simp
      qed
      show "rx_match_at r (drop k' cs) = Some m" using Cons.prems(3) Suc by simp
    qed
    ultimately show ?thesis by simp
  qed
qed

lemma rx_findall_none:
  "(\<forall>k\<le>length s. rx_match_at r (drop k s) = None) \<Longrightarrow> rx_findall r s = []"
proof (induction s)
  case Nil
  then show ?case by (simp add: rx_findall.simps[of r "[]"])
next
  case (Cons c cs)
  note sp = all_le_drop_Cons[of c cs "\<lambda>s. rx_match_at r s = None"]
  from Cons.prems have ab: "rx_match_at r (c # cs) = None
      \<and> (\<forall>k\<le>length cs. rx_match_at r (drop k cs) = None)"
    unfolding sp .
  note a = conjunct1[OF ab] and b = conjunct2[OF ab]
  from Cons.IH[OF b] a show ?case
    by (simp add: rx_findall.simps[of r "c # cs"])
qed


section \<open>Drawing analyzer: properties\<close>

lemma scale_two_declarations:
  "extract_scale maxd ''Scale 1:50 and Scale 1:100'' = Inr (Some 50)"
  by (simp add: extract_scale_def scale_rx_def rx_eval char_eval)

section \<open>The measurement pattern as a scanner\<close>

lemma rx_run_then: "rx_run r m = rx_then r (\<lambda>x. [x]) m"
  by (simp add: rx_then_def)

lemma rx_then_Chars:
  "rx_then (Chars p) k (s, g) = (case s of [] \<Rightarrow> [] | c # cs \<Rightarrow> if p c then k (cs, g) else [])"
  by (simp add: rx_then_def split: list.split)

lemma rx_then_Empty: "rx_then Empty k (s, g) = k (s, g)"
  by (simp add: rx_then_def)

lemma concat_map_concat_map:
  "concat (map k (concat (map f xs))) = concat (map (\<lambda>x. concat (map k (f x))) xs)"
  by (induction xs) simp_all

lemma rx_then_Seq: "rx_then (Seq a b) k (s, g) = rx_then a (rx_then b k) (s, g)"
proof -
  have "rx_then b k = (\<lambda>x. concat (map k (rx_run b x)))"
    by (rule ext) (simp add: rx_then_def)
  then show ?thesis
    by (simp add: rx_then_def concat_map_concat_map)
qed

lemma rx_then_Alt: "rx_then (Alt a b) k (s, g) = rx_then a k (s, g) @ rx_then b k (s, g)"
  by (simp add: rx_then_def)

lemma rx_then_Opt: "rx_then (Opt a) k (s, g) = rx_then a k (s, g) @ k (s, g)"
  by (simp add: rx_then_def)

lemma rx_then_Group:
  "rx_then (Group n a) k (s, g) =
     rx_then a (\<lambda>m. k (fst m, (snd m)(n \<mapsto> take (length s - length (fst m)) s))) (s, g)"
  by (simp add: rx_then_def comp_def)

lemma rx_then_Star_Chars:
  "rx_then (Star (Chars p)) k (s, g) =
     (case s of
        [] \<Rightarrow> k ([], g)
      | c # cs \<Rightarrow> if p c then rx_then (Star (Chars p)) k (cs, g) @ k (c # cs, g)
                  else k (c # cs, g))"
  by (simp add: rx_then_def split: list.split)

lemma rx_then_Star_commit:
  assumes "\<And>c cs g. p c \<Longrightarrow> k (c # cs, g) = []"
  shows "rx_then (Star (Chars p)) k (s, g) = k (dropWhile p s, g)"
proof (induction s)
  case Nil
  show ?case by (subst rx_then_Star_Chars) simp
next
  case (Cons c cs)
  show ?case
    by (subst rx_then_Star_Chars) (simp add: Cons.IH assms)
qed

lemma rx_then_Plus_commit:
  assumes "\<And>c cs g. p c \<Longrightarrow> k (c # cs, g) = []"
  shows "rx_then (Plus (Chars p)) k (s, g) =
     (case s of [] \<Rightarrow> [] | c # cs \<Rightarrow> if p c then k (dropWhile p s, g) else [])"
  unfolding Plus_def rx_then_Seq rx_then_Chars
  by (simp add: rx_then_Star_commit[of p k, OF assms] split: list.split)

lemma rx_then_Str:
  "rx_then (Str w) k (s, g) = (if prefix w s then k (drop (length w) s, g) else [])"
proof (induction w arbitrary: s)
  case Nil
  show ?case by (simp add: rx_then_Empty)
next
  case (Cons c w)
  show ?case
    by (cases s) (simp_all add: rx_then_Seq Lit_def rx_then_Chars Cons.IH)
qed


lemma digit_not_other:
  "is_digit c \<Longrightarrow> \<not> is_space c \<and> c \<noteq> CHR ''.'' \<and> c \<noteq> CHR ''m'' \<and> c \<noteq> CHR ''c''"
  by (auto simp: is_digit_def is_space_def Let_def)

lemma point_not_other: "\<not> is_space CHR ''.'' \<and> \<not> is_digit CHR ''.''"
  by (simp add: is_digit_def is_space_def)

lemma space_not_unit: "is_space c \<Longrightarrow> c \<noteq> CHR ''m'' \<and> c \<noteq> CHR ''c''"
  by (auto simp: is_space_def Let_def)

lemma unit_results_other:
  "c \<noteq> CHR ''m'' \<Longrightarrow> c \<noteq> CHR ''c'' \<Longrightarrow> unit_results (c # cs) g = []"
  by (simp add: unit_results_def)

lemma unit_results_Nil: "unit_results [] g = []"
  by (simp add: unit_results_def)

lemma take_prefix_drop:
  "prefix w u \<Longrightarrow> take (length u - length (drop (length w) u)) u = w"
  by (auto simp: prefix_def)

lemma group_Str_run:
  "rx_then (Str w) (\<lambda>m. [(fst m, (snd m)(n \<mapsto> take (length u - length (fst m)) u))]) (u, g) =
     (if prefix w u then [(drop (length w) u, g(n \<mapsto> w))] else [])"
  unfolding rx_then_Str using take_prefix_drop[of w u] by simp

lemma units_run:
  "rx_then (Group 2 (Alt (Str ''mm'') (Alt (Str ''cm'') (Str ''m'')))) (\<lambda>x. [x]) (u, g) =
     unit_results u g"
  unfolding rx_then_Group rx_then_Alt fst_conv snd_conv group_Str_run unit_results_def
  by (simp add: numeral_2_eq_2)


lemma blanks_units_run:
  "rx_then (Seq (Star (Chars is_space))
                (Group 2 (Alt (Str ''mm'') (Alt (Str ''cm'') (Str ''m''))))) (\<lambda>x. [x]) (s, g) =
     unit_results (dropWhile is_space s) g"
proof -
  let ?U = "Group 2 (Alt (Str ''mm'') (Alt (Str ''cm'') (Str ''m'')))"
  have fail: "rx_then ?U (\<lambda>x. [x]) (c # cs, g') = []" if "is_space c" for c cs g'
    unfolding units_run using space_not_unit[OF that] by (simp add: unit_results_other)
  have "rx_then (Seq (Star (Chars is_space)) ?U) (\<lambda>x. [x]) (s, g) =
      rx_then (Star (Chars is_space)) (rx_then ?U (\<lambda>x. [x])) (s, g)"
    by (rule rx_then_Seq)
  also have "\<dots> = rx_then ?U (\<lambda>x. [x]) (dropWhile is_space s, g)"
    by (rule rx_then_Star_commit) (rule fail)
  also have "\<dots> = unit_results (dropWhile is_space s) g"
    by (rule units_run)
  finally show ?thesis .
qed

lemma measurement_run:
  "rx_run measurement_rx (s, g) =
     (case s of
        [] \<Rightarrow> []
      | c # cs \<Rightarrow>
          if is_digit c then
            unit_results (dropWhile is_space (after_number s))
              (g(1 \<mapsto> take (length s - length (after_number s)) s))
          else [])"
proof -
  let ?D = "Plus (Chars is_digit)"
  let ?F = "Seq (Lit CHR ''.'') ?D"
  let ?WU = "Seq (Star (Chars is_space))
                 (Group 2 (Alt (Str ''mm'') (Alt (Str ''cm'') (Str ''m''))))"
  define K where
    "K = (\<lambda>m. rx_then ?WU (\<lambda>x. [x])
                 (fst m, (snd m)(1 \<mapsto> take (length s - length (fst m)) s)))"
  have K: "K (s', g') = unit_results (dropWhile is_space s')
                          (g'(1 \<mapsto> take (length s - length s') s))" for s' g'
    unfolding K_def fst_conv snd_conv blanks_units_run ..
  have K_digit: "K (c # cs, g') = []" if "is_digit c" for c cs g'
    unfolding K using digit_not_other[OF that] by (simp add: unit_results_other)
  have K_point: "K (CHR ''.'' # cs, g') = []" for cs g'
    unfolding K using point_not_other by (simp add: unit_results_other)
  have F_run: "rx_then ?F K (r, g') =
      (case r of
         [] \<Rightarrow> []
       | c # t \<Rightarrow>
           if c = CHR ''.'' then
             (case t of [] \<Rightarrow> [] | d # t' \<Rightarrow> if is_digit d then K (dropWhile is_digit t, g') else [])
           else [])" for r g'
    unfolding rx_then_Seq Lit_def rx_then_Chars
    by (simp add: rx_then_Plus_commit[of is_digit K, OF K_digit] split: list.split)
  have Opt_digit: "rx_then (Opt ?F) K (c # cs, g') = []" if "is_digit c" for c cs g'
    unfolding rx_then_Opt F_run using digit_not_other[OF that] K_digit[OF that] by simp
  define r where "r = dropWhile is_digit s"
  have an: "after_number s =
      (case r of
         c # d # t \<Rightarrow> if c = CHR ''.'' \<and> is_digit d then dropWhile is_digit (d # t) else r
       | _ \<Rightarrow> r)"
    unfolding after_number_def r_def Let_def ..
  have Opt_run: "rx_then (Opt ?F) K (r, g) = K (after_number s, g)"
  proof (cases r)
    case Nil
    then show ?thesis
      unfolding rx_then_Opt F_run an by simp
  next
    case r: (Cons c t)
    show ?thesis
    proof (cases t)
      case Nil
      with r show ?thesis
        unfolding rx_then_Opt F_run an by simp
    next
      case (Cons d t')
      show ?thesis
      proof (cases "c = CHR ''.'' \<and> is_digit d")
        case True
        with r Cons show ?thesis
          unfolding rx_then_Opt F_run an by (simp add: K_point)
      next
        case False
        with r Cons show ?thesis
          unfolding rx_then_Opt F_run an by auto
      qed
    qed
  qed
  have "rx_run measurement_rx (s, g) = rx_then ?D (rx_then (Opt ?F) K) (s, g)"
    unfolding rx_run_then measurement_rx_def rx_then_Seq[of "Group 1 _"] rx_then_Group
      rx_then_Seq[of ?D] K_def ..
  also have "\<dots> = (case s of [] \<Rightarrow> []
      | c # cs \<Rightarrow> if is_digit c then rx_then (Opt ?F) K (dropWhile is_digit s, g) else [])"
    by (rule rx_then_Plus_commit) (rule Opt_digit)
  finally show ?thesis
    unfolding r_def[symmetric] Opt_run K .
qed


lemma unit_results_first:
  "(case unit_results u g of [] \<Rightarrow> None | m # _ \<Rightarrow> Some m) =
     map_option (\<lambda>un. (drop (length un) u, g(2 \<mapsto> un))) (unit_at u)"
  by (simp add: unit_results_def unit_at_def numeral_2_eq_2)

lemma measurement_match_at:
  "rx_match_at measurement_rx s =
     map_option (\<lambda>m. (snd (snd m), [1 \<mapsto> fst m, 2 \<mapsto> fst (snd m)])) (measure_at s)"
proof (cases s)
  case Nil
  then show ?thesis by (simp add: rx_match_at_def measurement_run measure_at_def)
next
  case (Cons c cs)
  show ?thesis
  proof (cases "is_digit c")
    case False
    with Cons show ?thesis by (simp add: rx_match_at_def measurement_run measure_at_def)
  next
    case True
    define u where "u = dropWhile is_space (after_number s)"
    define num where "num = take (length s - length (after_number s)) s"
    have "rx_match_at measurement_rx s =
        (case unit_results u [1 \<mapsto> num] of [] \<Rightarrow> None | m # _ \<Rightarrow> Some m)"
      unfolding rx_match_at_def measurement_run u_def num_def using Cons True by simp
    also have "\<dots> = map_option (\<lambda>un. (drop (length un) u, [1 \<mapsto> num, 2 \<mapsto> un])) (unit_at u)"
      by (rule unit_results_first)
    also have "\<dots> = map_option (\<lambda>m. (snd (snd m), [1 \<mapsto> fst m, 2 \<mapsto> fst (snd m)])) (measure_at s)"
      unfolding measure_at_def Let_def u_def[symmetric] num_def[symmetric] using Cons True
      by (simp split: option.split)
    finally show ?thesis .
  qed
qed

lemma after_number_suffix: "\<exists>p. s = p @ after_number s"
proof -
  define r where "r = dropWhile is_digit s"
  have s: "s = takeWhile is_digit s @ r" by (simp add: r_def)
  have an: "after_number s =
      (case r of
         c # d # t \<Rightarrow> if c = CHR ''.'' \<and> is_digit d then dropWhile is_digit (d # t) else r
       | _ \<Rightarrow> r)"
    unfolding after_number_def r_def Let_def ..
  have "\<exists>q. r = q @ after_number s"
  proof (cases r)
    case Nil
    then show ?thesis by (simp add: an)
  next
    case r: (Cons c t)
    show ?thesis
    proof (cases t)
      case Nil
      with r show ?thesis by (simp add: an)
    next
      case (Cons d t')
      show ?thesis
      proof (cases "c = CHR ''.'' \<and> is_digit d")
        case True
        have "r = (c # takeWhile is_digit (d # t')) @ dropWhile is_digit (d # t')"
          unfolding r Cons by simp
        moreover have "after_number s = dropWhile is_digit (d # t')"
          unfolding an r Cons using True by simp
        ultimately have "r = (c # takeWhile is_digit (d # t')) @ after_number s" by simp
        then show ?thesis by (rule exI)
      next
        case False
        then have "after_number s = r" unfolding an r Cons by auto
        then have "r = [] @ after_number s" by simp
        then show ?thesis by (rule exI)
      qed
    qed
  qed
  then obtain q where "r = q @ after_number s" by (elim exE)
  with s have "s = (takeWhile is_digit s @ q) @ after_number s" by simp
  then show ?thesis by (rule exI)
qed

lemma unit_at_Some: "unit_at u = Some un \<Longrightarrow> prefix un u \<and> un \<in> set [''mm'', ''cm'', ''m'']"
  by (auto simp: unit_at_def split: if_splits)

lemma measure_at_shorter:
  assumes "measure_at s = Some m"
  shows "length (snd (snd m)) < length s"
proof -
  from after_number_suffix[of s] obtain p where p: "s = p @ after_number s" by (rule exE)
  define u where "u = dropWhile is_space (after_number s)"
  from assms obtain un where un: "unit_at u = Some un" and m: "snd (snd m) = drop (length un) u"
    unfolding measure_at_def Let_def u_def[symmetric]
    by (auto split: list.splits if_splits option.splits)
  from unit_at_Some[OF un] have "prefix un u" "un \<noteq> []" by auto
  then have "length (drop (length un) u) < length u"
    by (auto simp: prefix_def)
  moreover have "length u \<le> length (after_number s)"
    unfolding u_def by (rule length_dropWhile_le)
  moreover have "length (after_number s) \<le> length s"
    using arg_cong[OF p, of length] by simp
  ultimately show ?thesis unfolding m by linarith
qed

lemma findall_scan:
  "rx_findall measurement_rx s =
     map (\<lambda>m. [1 \<mapsto> fst m, 2 \<mapsto> snd m]) (scan_measures s)"
proof -
  define G :: "string \<times> string \<Rightarrow> groups"
    where "G = (\<lambda>m. [1 \<mapsto> fst m, 2 \<mapsto> snd m])"
  have mm: "rx_match_at measurement_rx t =
      map_option (\<lambda>m. (snd (snd m), G (fst m, fst (snd m)))) (measure_at t)" for t
    unfolding G_def fst_conv snd_conv by (rule measurement_match_at)
  have "rx_findall measurement_rx s = map G (scan_measures s)"
  proof (induction s rule: scan_measures.induct)
    case (1 s)
    show ?case
    proof (cases "measure_at s")
      case None
      show ?thesis
      proof (cases s)
        case Nil
        with None show ?thesis
          by (subst rx_findall.simps, subst scan_measures.simps) (simp add: mm)
      next
        case (Cons c cs)
        with None "1.IH"(1)[OF None Cons] show ?thesis
          by (subst rx_findall.simps, subst scan_measures.simps) (simp add: mm)
      qed
    next
      case (Some m)
      have sh: "length (snd (snd m)) < length s" using Some by (rule measure_at_shorter)
      from "1.IH"(2)[OF Some sh] Some sh show ?thesis
        by (subst rx_findall.simps, subst scan_measures.simps) (simp add: mm)
    qed
  qed
  then show ?thesis unfolding G_def .
qed


lemma group_pair:
  "group [1 \<mapsto> x, 2 \<mapsto> y] 1 = x" "group [1 \<mapsto> x, 2 \<mapsto> y] 2 = y"
  by (simp_all add: group_def)

lemma dims_scan:
  "map (\<lambda>g. (group g 1, group g 2)) (rx_findall measurement_rx s) = scan_measures s"
  unfolding findall_scan map_map comp_def group_pair by simp

lemma py_lower_char_digit: "is_digit c \<Longrightarrow> py_lower_char c = c"
  by (auto simp: is_digit_def py_lower_char_def Let_def)

lemma py_lower_char_space: "is_space c \<Longrightarrow> py_lower_char c = c"
  by (auto simp: is_space_def py_lower_char_def Let_def)

lemma py_lower_append: "py_lower (xs @ ys) = py_lower xs @ py_lower ys"
  by (simp add: py_lower_def)

lemma py_lower_digits: "list_all is_digit s \<Longrightarrow> py_lower s = s"
  by (induction s) (simp_all add: py_lower_def py_lower_char_digit)

lemma py_lower_spaces: "list_all is_space s \<Longrightarrow> py_lower s = s"
  by (induction s) (simp_all add: py_lower_def py_lower_char_space)

lemma py_lower_units:
  "py_lower ''.'' = ''.''" "py_lower ''mm'' = ''mm''" "py_lower ''cm'' = ''cm''"
  "py_lower ''m'' = ''m''"
  by (simp_all add: char_eval)

lemma takeWhile_all: "list_all P xs \<Longrightarrow> takeWhile P xs = xs"
  by (induction xs) simp_all

lemma dropWhile_all_append:
  "list_all P xs \<Longrightarrow> dropWhile P (xs @ ys) = dropWhile P ys"
  by (induction xs) simp_all

lemma takeWhile_all_append:
  "list_all P xs \<Longrightarrow> takeWhile P (xs @ ys) = xs @ takeWhile P ys"
  by (induction xs) simp_all

lemma digits_no_point: "list_all is_digit s \<Longrightarrow> list_all (\<lambda>c. c \<noteq> CHR ''.'') s"
  by (induction s) (simp_all add: digit_not_other)

lemma py_float_int: "is_digits a \<Longrightarrow> py_float a = Inr (decimal_float a)"
proof -
  assume a: "is_digits a"
  then have np: "list_all (\<lambda>c. c \<noteq> CHR ''.'') a"
    by (simp add: is_digits_def digits_no_point)
  have t: "takeWhile (\<lambda>c. c \<noteq> CHR ''.'') a = a"
    using np by (rule takeWhile_all)
  have d: "dropWhile (\<lambda>c. c \<noteq> CHR ''.'') a = []"
    using dropWhile_all_append[OF np, of "[]"] by simp
  show ?thesis
    unfolding py_float_def decimal_float_def Let_def t d using a by simp
qed

lemma py_float_frac:
  assumes a: "is_digits a" and b: "is_digits b"
  shows "py_float (a @ ''.'' @ b) = Inr (decimal_float (a @ ''.'' @ b))"
proof -
  from a have np: "list_all (\<lambda>c. c \<noteq> CHR ''.'') a"
    by (simp add: is_digits_def digits_no_point)
  have t: "takeWhile (\<lambda>c. c \<noteq> CHR ''.'') (a @ ''.'' @ b) = a"
    unfolding takeWhile_all_append[OF np] by simp
  have d: "dropWhile (\<lambda>c. c \<noteq> CHR ''.'') (a @ ''.'' @ b) = ''.'' @ b"
    unfolding dropWhile_all_append[OF np] by simp
  show ?thesis
    unfolding py_float_def decimal_float_def Let_def t d using a b by simp
qed

text \<open>The shape of a number: digits, or digits, a point and digits.\<close>

lemma take_append_length: "s = p @ q \<Longrightarrow> take (length s - length q) s = p"
  by simp

lemma number_shape:
  assumes "is_digit c"
  shows "\<exists>a. is_digits a \<and>
    (take (length (c # cs) - length (after_number (c # cs))) (c # cs) = a
     \<or> (\<exists>b. is_digits b \<and>
          take (length (c # cs) - length (after_number (c # cs))) (c # cs) = a @ ''.'' @ b))"
proof -
  define s where "s = c # cs"
  define a where "a = takeWhile is_digit s"
  define r where "r = dropWhile is_digit s"
  have s: "s = a @ r" by (simp add: a_def r_def)
  have a: "is_digits a"
    unfolding is_digits_def a_def s_def using assms
    by (simp add: list_all_iff) (meson set_takeWhileD)
  have an: "after_number s =
      (case r of
         x # d # t \<Rightarrow> if x = CHR ''.'' \<and> is_digit d then dropWhile is_digit (d # t) else r
       | _ \<Rightarrow> r)"
    unfolding after_number_def r_def Let_def ..
  show ?thesis
  proof (cases "\<exists>d t. r = CHR ''.'' # d # t \<and> is_digit d")
    case True
    then obtain d t where r: "r = CHR ''.'' # d # t" and d: "is_digit d" by (elim exE conjE)
    define b where "b = takeWhile is_digit (d # t)"
    have b: "is_digits b"
      unfolding is_digits_def b_def using d
      by (simp add: list_all_iff) (meson set_takeWhileD)
    have af: "after_number s = dropWhile is_digit (d # t)"
      unfolding an r using d by simp
    have "r = (''.'' @ b) @ dropWhile is_digit (d # t)"
      unfolding r b_def using d by simp
    then have "a @ r = (a @ ''.'' @ b) @ dropWhile is_digit (d # t)"
      by simp
    then have "s = (a @ ''.'' @ b) @ after_number s"
      unfolding af s[symmetric] .
    then have "take (length s - length (after_number s)) s = a @ ''.'' @ b"
      by (rule take_append_length)
    with a b show ?thesis unfolding s_def by (intro exI conjI disjI2) 
  next
    case False
    have af: "after_number s = r"
    proof (cases r)
      case Nil
      then show ?thesis by (simp add: an)
    next
      case r: (Cons x t)
      show ?thesis
      proof (cases t)
        case Nil
        with r show ?thesis by (simp add: an)
      next
        case (Cons d t')
        with r False have "\<not> (x = CHR ''.'' \<and> is_digit d)" by simp
        with r Cons show ?thesis by (auto simp: an)
      qed
    qed
    have "s = a @ after_number s" unfolding af by (rule s)
    then have "take (length s - length (after_number s)) s = a"
      by (rule take_append_length)
    with a show ?thesis unfolding s_def by (intro exI conjI disjI1)
  qed
qed

lemma measure_at_number_ok:
  assumes "measure_at s = Some m"
  shows "py_float (fst m) = Inr (decimal_float (fst m))"
proof -
  from assms obtain c cs where s: "s = c # cs" and c: "is_digit c"
    and m: "fst m = take (length s - length (after_number s)) s"
    unfolding measure_at_def Let_def
    by (auto split: list.splits if_splits option.splits)
  from number_shape[OF c, of cs] obtain a where a: "is_digits a"
    and sh: "fst m = a \<or> (\<exists>b. is_digits b \<and> fst m = a @ ''.'' @ b)"
    unfolding m s by (elim exE conjE)
  from sh show ?thesis
  proof
    assume "fst m = a"
    with py_float_int[OF a] show ?thesis by simp
  next
    assume "\<exists>b. is_digits b \<and> fst m = a @ ''.'' @ b"
    then obtain b where "is_digits b" "fst m = a @ ''.'' @ b" by (elim exE conjE)
    with py_float_frac[OF a, of b] show ?thesis by simp
  qed
qed

lemma scan_numbers_ok:
  "list_all (\<lambda>x. py_float (fst x) = Inr (decimal_float (fst x))) (scan_measures s)"
proof (induction s rule: scan_measures.induct)
  case (1 s)
  show ?case
  proof (cases "measure_at s")
    case None
    show ?thesis
    proof (cases s)
      case Nil
      with None show ?thesis by (subst scan_measures.simps) simp
    next
      case (Cons c cs)
      with None "1.IH"(1)[OF None Cons] show ?thesis by (subst scan_measures.simps) simp
    qed
  next
    case (Some m)
    have sh: "length (snd (snd m)) < length s" using Some by (rule measure_at_shorter)
    from "1.IH"(2)[OF Some sh] Some sh measure_at_number_ok[OF Some] show ?thesis
      by (subst scan_measures.simps) simp
  qed
qed

lemma convert_dims_ok:
  "list_all (\<lambda>x. py_float (fst x) = Inr (decimal_float (fst x))) xs \<Longrightarrow>
   convert_dims xs = Inr (map (\<lambda>x. (decimal_float (fst x), snd x)) xs)"
  by (induction xs) auto

lemma extract_measurements_scan:
  "extract_measurements text =
     Inr (map (\<lambda>x. (decimal_float (fst x), snd x)) (scan_measures (py_lower text)))"
  unfolding extract_measurements_def Let_def dims_scan
  by (rule convert_dims_ok) (rule scan_numbers_ok)


lemma unit_letter_not_other:
  "x = CHR ''m'' \<or> x = CHR ''c'' \<Longrightarrow> \<not> is_digit x \<and> \<not> is_space x \<and> x \<noteq> CHR ''.''"
  by (auto simp: is_digit_def is_space_def)

lemma space_not_digit: "is_space c \<Longrightarrow> \<not> is_digit c \<and> c \<noteq> CHR ''.''"
  by (auto simp: is_digit_def is_space_def Let_def)

lemma after_number_plain:
  assumes "\<not> is_digit y" "y \<noteq> CHR ''.''"
  shows "after_number (y # z) = y # z"
  using assms by (cases z) (simp_all add: after_number_def)

lemma after_number_digits:
  assumes a: "list_all is_digit a" and y: "\<not> is_digit y" "y \<noteq> CHR ''.''"
  shows "after_number (a @ y # z) = y # z"
proof -
  have d: "dropWhile is_digit (a @ y # z) = y # z"
    unfolding dropWhile_all_append[OF a] using y(1) by simp
  show ?thesis
    unfolding after_number_def Let_def d using y by (cases z) simp_all
qed

lemma after_number_fraction:
  assumes a: "list_all is_digit a" and b: "is_digits b" and y: "\<not> is_digit y"
  shows "after_number (a @ ''.'' @ b @ y # z) = y # z"
proof -
  from b obtain d b' where bb: "b = d # b'" and d: "is_digit d" and b': "list_all is_digit b'"
    unfolding is_digits_def by (cases b) auto
  have d1: "dropWhile is_digit (a @ ''.'' @ b @ y # z) = CHR ''.'' # d # (b' @ y # z)"
    unfolding dropWhile_all_append[OF a] bb using point_not_other by simp
  have d2: "dropWhile is_digit (d # (b' @ y # z)) = y # z"
    using d y dropWhile_all_append[OF b', of "y # z"] by simp
  show ?thesis
    unfolding after_number_def Let_def d1 using d d2 by simp
qed

lemma measure_at_token:
  assumes a: "is_digits a" and N: "N = a \<or> is_digits b \<and> N = a @ ''.'' @ b"
    and w: "list_all is_space w" and x: "x = CHR ''m'' \<or> x = CHR ''c''"
  shows "measure_at (N @ w @ x # v) =
    (case unit_at (x # v) of
       None \<Rightarrow> None
     | Some un \<Rightarrow> Some (N, un, drop (length un) (x # v)))"
proof -
  define s where "s = N @ w @ x # v"
  from a obtain c a' where aa: "a = c # a'" and c: "is_digit c" and al: "list_all is_digit a"
    unfolding is_digits_def by (cases a) auto
  obtain y z where yz: "w @ x # v = y # z" and y: "\<not> is_digit y" "y \<noteq> CHR ''.''"
  proof (cases w)
    case Nil
    with unit_letter_not_other[OF x] that[of x v] show ?thesis by simp
  next
    case (Cons y w')
    with w have "is_space y" by simp
    from space_not_digit[OF this] Cons that[of y "w' @ x # v"] show ?thesis by simp
  qed
  have af: "after_number s = w @ x # v"
  proof -
    from N show ?thesis
    proof
      assume "N = a"
      then show ?thesis
        unfolding s_def yz using after_number_digits[OF al y, of z] by simp
    next
      assume "is_digits b \<and> N = a @ ''.'' @ b"
      then have b: "is_digits b" and n: "N = a @ ''.'' @ b" by simp_all
      have "after_number (a @ ''.'' @ b @ y # z) = y # z"
        using al b y(1) by (rule after_number_fraction)
      then show ?thesis
        unfolding s_def yz n by simp
    qed
  qed
  have sc: "s = c # (tl N @ w @ x # v)"
  proof -
    from N have "N = c # tl N" unfolding aa by auto
    then show ?thesis unfolding s_def by (metis append_Cons)
  qed
  have num: "take (length s - length (after_number s)) s = N"
    unfolding af by (rule take_append_length) (simp add: s_def)
  have u: "dropWhile is_space (after_number s) = x # v"
    unfolding af dropWhile_all_append[OF w] using unit_letter_not_other[OF x] by simp
  have "measure_at s =
    (case unit_at (x # v) of
       None \<Rightarrow> None
     | Some un \<Rightarrow> Some (N, un, drop (length un) (x # v)))"
    unfolding measure_at_def Let_def num u
    by (subst sc) (simp add: c num u)
  then show ?thesis unfolding s_def .
qed

lemma scan_measures_Nil: "scan_measures [] = []"
  by (subst scan_measures.simps) (simp add: measure_at_def)

lemma scan_token:
  assumes a: "is_digits a" and N: "N = a \<or> is_digits b \<and> N = a @ ''.'' @ b"
    and w: "list_all is_space w" and x: "x = CHR ''m'' \<or> x = CHR ''c''"
    and un: "unit_at (x # v) = Some un"
  shows "scan_measures (N @ w @ x # v) = (N, un) # scan_measures (drop (length un) (x # v))"
proof -
  have m: "measure_at (N @ w @ x # v) = Some (N, un, drop (length un) (x # v))"
    unfolding measure_at_token[OF a N w x] un by simp
  from measure_at_shorter[OF m]
  have sh: "length (drop (length un) (x # v)) < length (N @ w @ x # v)" by simp
  show ?thesis
    by (subst scan_measures.simps) (simp only: m option.case fst_conv snd_conv sh if_True)
qed

lemma units_at:
  "unit_at (''mm'' @ v) = Some ''mm''" "unit_at (''cm'' @ v) = Some ''cm''"
  "unit_at ''m'' = Some ''m''"
  by (simp_all add: unit_at_def)


lemma round_double_ints:
  "round_double 2500 = Finite 2500" "round_double 12 = Finite 12" "round_double 5 = Finite 5"
  "round_double (25 / 2) = Finite (25 / 2)" "round_double (7 / 2) = Finite (7 / 2)"
  by (subst round_double_normal[where k=11], simp_all add: round_eval,
      subst round_double_normal[where k=3], simp_all add: round_eval,
      subst round_double_normal[where k=2], simp_all add: round_eval,
      subst round_double_normal[where k=3], simp_all add: round_eval,
      subst round_double_normal[where k=1], simp_all add: round_eval)

lemma decimal_float_vals:
  "decimal_float ''2500'' = Finite 2500" "decimal_float ''12'' = Finite 12"
  "decimal_float ''5'' = Finite 5" "decimal_float ''12.5'' = Finite (25 / 2)"
  "decimal_float ''3.5'' = Finite (7 / 2)"
  by (simp_all add: decimal_float_def digits_val_def digit_val_def round_double_ints)

lemma digits_examples:
  "is_digits ''2500''" "is_digits ''12''" "is_digits ''5''" "is_digits ''3''"
  by (simp_all add: is_digits_def is_digit_def)


lemma py_lower_number:
  assumes a: "is_digits a" and N: "N = a \<or> is_digits b \<and> N = a @ ''.'' @ b"
  shows "py_lower N = N"
proof -
  from a have la: "py_lower a = a" by (simp add: is_digits_def py_lower_digits)
  from N show ?thesis
  proof
    assume "N = a"
    with la show ?thesis by simp
  next
    assume "is_digits b \<and> N = a @ ''.'' @ b"
    then have b: "is_digits b" and n: "N = a @ ''.'' @ b" by simp_all
    from b have lb: "py_lower b = b" by (simp add: is_digits_def py_lower_digits)
    show ?thesis
      unfolding n py_lower_append la lb py_lower_units ..
  qed
qed


lemma extract_token_rest:
  assumes a: "is_digits a" and N: "N = a \<or> is_digits b \<and> N = a @ ''.'' @ b"
    and w: "list_all is_space w" and u: "u = ''mm'' \<or> u = ''cm''"
  shows "extract_measurements (N @ w @ u @ rest) =
    Inr ((decimal_float N, u) #
         map (\<lambda>x. (decimal_float (fst x), snd x)) (scan_measures (py_lower rest)))"
proof -
  have lo: "py_lower (N @ w @ u @ rest) = N @ w @ u @ py_lower rest"
    unfolding py_lower_append py_lower_number[OF a N] py_lower_spaces[OF w]
    using u py_lower_units by auto
  from u have "scan_measures (N @ w @ u @ py_lower rest) = (N, u) # scan_measures (py_lower rest)"
  proof
    assume m: "u = ''mm''"
    have "scan_measures (N @ w @ CHR ''m'' # (''m'' @ py_lower rest)) =
        (N, ''mm'') # scan_measures (drop (length ''mm'') (CHR ''m'' # (''m'' @ py_lower rest)))"
      by (rule scan_token[OF a N w]) (simp_all add: unit_at_def)
    then show ?thesis unfolding m by simp
  next
    assume c: "u = ''cm''"
    have "scan_measures (N @ w @ CHR ''c'' # (''m'' @ py_lower rest)) =
        (N, ''cm'') # scan_measures (drop (length ''cm'') (CHR ''c'' # (''m'' @ py_lower rest)))"
      by (rule scan_token[OF a N w]) (simp_all add: unit_at_def)
    then show ?thesis unfolding c by simp
  qed
  then show ?thesis
    unfolding extract_measurements_scan lo by simp
qed

lemma extract_token:
  assumes a: "is_digits a" and N: "N = a \<or> is_digits b \<and> N = a @ ''.'' @ b"
    and w: "list_all is_space w" and u: "u \<in> set [''mm'', ''cm'', ''m'']"
  shows "extract_measurements (N @ w @ u) = Inr [(decimal_float N, u)]"
proof -
  from u have "u = ''mm'' \<or> u = ''cm'' \<or> u = ''m''" by simp
  then show ?thesis
  proof (elim disjE)
    assume "u = ''mm''"
    then have "u = ''mm'' \<or> u = ''cm''" by simp
    from extract_token_rest[OF a N w this, of "[]"] show ?thesis
      by (simp add: py_lower_def scan_measures_Nil)
  next
    assume "u = ''cm''"
    then have "u = ''mm'' \<or> u = ''cm''" by simp
    from extract_token_rest[OF a N w this, of "[]"] show ?thesis
      by (simp add: py_lower_def scan_measures_Nil)
  next
    assume m: "u = ''m''"
    have lo: "py_lower (N @ w @ ''m'') = N @ w @ ''m''"
      unfolding py_lower_append py_lower_number[OF a N] py_lower_spaces[OF w] py_lower_units ..
    have "scan_measures (N @ w @ CHR ''m'' # []) =
        (N, ''m'') # scan_measures (drop (length ''m'') (CHR ''m'' # []))"
      by (rule scan_token[OF a N w]) (simp_all add: unit_at_def)
    then have "scan_measures (N @ w @ ''m'') = [(N, ''m'')]"
      by (simp add: scan_measures_Nil)
    then show ?thesis
      unfolding m extract_measurements_scan lo by simp
  qed
qed


lemma unit_m_not_mm:
  assumes "measure_at s = Some m" "fst (snd m) = ''m''"
  shows "\<not> prefix ''m'' (snd (snd m))"
proof -
  define u where "u = dropWhile is_space (after_number s)"
  from assms(1) obtain un where un: "unit_at u = Some un" and m: "snd m = (un, drop (length un) u)"
    unfolding measure_at_def Let_def u_def[symmetric]
    by (auto split: list.splits if_splits option.splits)
  from m assms(2) have "un = ''m''" by simp
  with un have "\<not> prefix ''mm'' u" "prefix ''m'' u"
    by (auto simp: unit_at_def split: if_splits)
  then have "\<not> prefix ''m'' (drop (length ''m'') u)"
    by (cases u) (auto simp: prefix_def)
  then show ?thesis unfolding m \<open>un = ''m''\<close> by simp
qed





text \<open>
  The pattern does not require a blank between the number and the unit: \<open>12mm\<close>,
  with nothing between the digits and the unit, is extracted.
\<close>

theorem no_blank_counterexample:
  "extract_measurements ''12mm'' = Inr [(Finite 12, ''mm'')]"
proof -
  have n: "''12'' = ''12'' \<or> is_digits [] \<and> ''12'' = ''12'' @ ''.'' @ []"
    by (rule disjI1) (rule refl)
  have "extract_measurements (''12'' @ [] @ ''mm'') = Inr [(decimal_float ''12'', ''mm'')]"
    by (rule extract_token[OF digits_examples(2) n]) simp_all
  then show ?thesis unfolding decimal_float_vals by simp
qed

text \<open>
  C3, as the code has it. The measurement pattern allows any run of blanks, also none,
  between the number and the unit token, so that \<open>12mm\<close> is extracted as 12 mm. Where
  unit tokens overlap the longer one is preferred: a token written \<open><N> mm\<close> or
  \<open><N> cm\<close> is extracted with that unit whatever follows it, and a unit \<open>m\<close> is never
  the first letter of \<open>mm\<close>.
\<close>

theorem blanks_optional_longest_unit:
  "(is_digits a \<and> (N = a \<or> is_digits b \<and> N = a @ ''.'' @ b) \<and> list_all is_space w
        \<and> u \<in> set [''mm'', ''cm'', ''m''] \<longrightarrow>
      extract_measurements (N @ w @ u) = Inr [(decimal_float N, u)])
   \<and> (is_digits a \<and> (N = a \<or> is_digits b \<and> N = a @ ''.'' @ b) \<and> list_all is_space w
        \<and> u \<in> set [''mm'', ''cm''] \<longrightarrow>
      (\<exists>ms. extract_measurements (N @ w @ u @ rest) = Inr ((decimal_float N, u) # ms)))
   \<and> (measure_at s = Some m \<and> fst (snd m) = ''m'' \<longrightarrow> \<not> prefix ''m'' (snd (snd m)))"
proof -
  have p1: "is_digits a \<and> (N = a \<or> is_digits b \<and> N = a @ ''.'' @ b) \<and> list_all is_space w
        \<and> u \<in> set [''mm'', ''cm'', ''m''] \<longrightarrow>
      extract_measurements (N @ w @ u) = Inr [(decimal_float N, u)]"
    by (intro impI, elim conjE) (rule extract_token)
  have p2: "is_digits a \<and> (N = a \<or> is_digits b \<and> N = a @ ''.'' @ b) \<and> list_all is_space w
        \<and> u \<in> set [''mm'', ''cm''] \<longrightarrow>
      (\<exists>ms. extract_measurements (N @ w @ u @ rest) = Inr ((decimal_float N, u) # ms))"
  proof (intro impI, elim conjE)
    assume a: "is_digits a" and N: "N = a \<or> is_digits b \<and> N = a @ ''.'' @ b"
      and w: "list_all is_space w" and "u \<in> set [''mm'', ''cm'']"
    then have u: "u = ''mm'' \<or> u = ''cm''" by simp
    from extract_token_rest[OF a N w u, of rest]
    show "\<exists>ms. extract_measurements (N @ w @ u @ rest) = Inr ((decimal_float N, u) # ms)"
      by (rule exI)
  qed
  have p3: "measure_at s = Some m \<and> fst (snd m) = ''m'' \<longrightarrow> \<not> prefix ''m'' (snd (snd m))"
    by (intro impI, elim conjE) (rule unit_m_not_mm)
  show ?thesis by (intro conjI p1 p2 p3)
qed

theorem blanks_optional_longest_unit_witness:
  "is_digits ''3'' \<and> is_digits ''5'' \<and> ''3.5'' = ''3'' @ ''.'' @ ''5''
   \<and> list_all is_space [] \<and> ''cm'' \<in> set [''mm'', ''cm'', ''m'']
   \<and> extract_measurements (''3.5'' @ [] @ ''cm'') = Inr [(Finite (7 / 2), ''cm'')]
   \<and> list_all is_space ''  '' \<and> ''mm'' \<in> set [''mm'', ''cm'']
   \<and> (\<exists>ms. extract_measurements (''5'' @ ''  '' @ ''mm'' @ ''m wide'')
              = Inr ((Finite 5, ''mm'') # ms))
   \<and> measure_at ''5 m'' = Some (''5'', ''m'', [])
   \<and> fst (snd (''5'', ''m'', ([]::string))) = ''m''
   \<and> \<not> prefix ''m'' (snd (snd (''5'', ''m'', ([]::string))))"
proof -
  note t1 = blanks_optional_longest_unit[of "''3''" "''3.5''" "''5''" "[]" "''cm''" "[]" "[]"
      "([], [], [])"]
  note t2 = blanks_optional_longest_unit[of "''5''" "''5''" "[]" "''  ''" "''mm''" "''m wide''"
      "[]" "([], [], [])"]
  note t3 = blanks_optional_longest_unit[of "[]" "[]" "[]" "[]" "[]" "[]" "''5 m''"
      "(''5'', ''m'', [])"]
  have e: "''3.5'' = ''3'' @ ''.'' @ ''5''" by simp
  have n1: "''3.5'' = ''3'' \<or> is_digits ''5'' \<and> ''3.5'' = ''3'' @ ''.'' @ ''5''"
    by (rule disjI2) (intro conjI digits_examples e)
  have n2: "''5'' = ''5'' \<or> is_digits [] \<and> ''5'' = ''5'' @ ''.'' @ []"
    by (rule disjI1) (rule refl)
  have w1: "list_all is_space []" by simp
  have w2: "list_all is_space ''  ''" by (simp add: is_space_def)
  have u1: "''cm'' \<in> set [''mm'', ''cm'', ''m'']" and u2: "''mm'' \<in> set [''mm'', ''cm'']"
    by simp_all
  have m1: "measure_at ''5 m'' = Some (''5'', ''m'', [])"
    by (simp add: measure_at_def after_number_def unit_at_def is_digit_def is_space_def)
  have m2: "fst (snd (''5'', ''m'', ([]::string))) = ''m''" by simp
  have "extract_measurements (''3.5'' @ [] @ ''cm'') = Inr [(decimal_float ''3.5'', ''cm'')]"
    by (rule mp[OF conjunct1[OF t1]]) (intro conjI digits_examples n1 w1 u1)
  then have c1: "extract_measurements (''3.5'' @ [] @ ''cm'') = Inr [(Finite (7 / 2), ''cm'')]"
    unfolding decimal_float_vals .
  have "\<exists>ms. extract_measurements (''5'' @ ''  '' @ ''mm'' @ ''m wide'')
              = Inr ((decimal_float ''5'', ''mm'') # ms)"
    by (rule mp[OF conjunct1[OF conjunct2[OF t2]]]) (intro conjI digits_examples n2 w2 u2)
  then have c2: "\<exists>ms. extract_measurements (''5'' @ ''  '' @ ''mm'' @ ''m wide'')
              = Inr ((Finite 5, ''mm'') # ms)"
    unfolding decimal_float_vals .
  have c3: "\<not> prefix ''m'' (snd (snd (''5'', ''m'', ([]::string))))"
    by (rule mp[OF conjunct2[OF conjunct2[OF t3]]]) (intro conjI m1 m2)
  show ?thesis
    by (intro conjI digits_examples e w1 w2 u1 u2 c1 c2 m1 m2 c3)
qed


section \<open>The scale pattern on a leading declaration\<close>

lemma rx_then_Star_Cons:
  "rx_then (Star (Chars p)) k (c # cs, g) =
     (if p c then rx_then (Star (Chars p)) k (cs, g) @ k (c # cs, g) else k (c # cs, g))"
  by (subst rx_then_Star_Chars) simp

lemma rx_then_Star_head:
  "\<exists>tl. rx_then (Star (Chars p)) k (s, g) = k (dropWhile p s, g) @ tl"
proof (induction s)
  case Nil
  have "rx_then (Star (Chars p)) k ([], g) = k (dropWhile p [], g) @ []"
    by (subst rx_then_Star_Chars) simp
  then show ?case by (rule exI)
next
  case (Cons c cs)
  then obtain tl where tl: "rx_then (Star (Chars p)) k (cs, g) = k (dropWhile p cs, g) @ tl"
    by (elim exE)
  show ?case
  proof (cases "p c")
    case True
    have "rx_then (Star (Chars p)) k (c # cs, g) =
        k (dropWhile p (c # cs), g) @ (tl @ k (c # cs, g))"
      unfolding rx_then_Star_Cons tl using True by simp
    then show ?thesis by (rule exI)
  next
    case False
    have "rx_then (Star (Chars p)) k (c # cs, g) = k (dropWhile p (c # cs), g) @ []"
      unfolding rx_then_Star_Cons using False by simp
    then show ?thesis by (rule exI)
  qed
qed

lemma rx_then_Star_nonempty:
  "k (dropWhile p s, g) \<noteq> [] \<Longrightarrow> rx_then (Star (Chars p)) k (s, g) \<noteq> []"
  using rx_then_Star_head[of p k s g] by auto

lemma rx_then_Star_hd:
  "k (dropWhile p s, g) \<noteq> [] \<Longrightarrow>
   hd (rx_then (Star (Chars p)) k (s, g)) = hd (k (dropWhile p s, g))"
  using rx_then_Star_head[of p k s g] by auto

lemma first_result:
  "xs \<noteq> [] \<Longrightarrow> (case xs of [] \<Rightarrow> None | m # _ \<Rightarrow> Some m) = Some (hd xs)"
  by (cases xs) simp_all

lemma dropWhile_digits_rest:
  assumes "list_all is_digit ds" "rest = [] \<or> \<not> is_digit (hd rest)"
  shows "dropWhile is_digit (ds @ rest) = rest"
  unfolding dropWhile_all_append[OF assms(1)] using assms(2) by (cases rest) auto

lemma scale_leading:
  assumes ds: "is_digits ds" and rest: "rest = [] \<or> \<not> is_digit (hd rest)"
  shows "rx_match_at scale_rx (''Scale 1:'' @ ds @ rest) = Some (rest, [1 \<mapsto> ds])"
proof -
  from ds obtain d ds' where dd: "ds = d # ds'" and d: "is_digit d" and dl: "list_all is_digit ds'"
    unfolding is_digits_def by (cases ds) auto
  have nsp: "\<not> is_space d" using digit_not_other[OF d] by simp
  have dr: "dropWhile is_digit (ds' @ rest) = rest"
    using dl rest by (rule dropWhile_digits_rest)
  define K :: "string \<times> groups \<Rightarrow> (string \<times> groups) list" where
    "K = (\<lambda>m. [(fst m, (snd m)(1 \<mapsto> take (length (d # ds' @ rest) - length (fst m)) (d # ds' @ rest)))])"
  have Kr: "K (dropWhile is_digit (ds' @ rest), Map.empty) = [(rest, [1 \<mapsto> d # ds'])]"
    unfolding dr K_def by simp
  have ne: "rx_then (Star (Chars is_digit)) K (ds' @ rest, Map.empty) \<noteq> []"
    by (rule rx_then_Star_nonempty) (simp add: Kr)
  have hd: "hd (rx_then (Star (Chars is_digit)) K (ds' @ rest, Map.empty)) = (rest, [1 \<mapsto> d # ds'])"
    by (subst rx_then_Star_hd) (simp_all add: Kr)
  have sp: "is_space CHR '' ''" "\<not> is_space CHR ''1''"
    by (simp_all add: is_space_def)
  have run: "\<exists>tl. rx_run scale_rx (''Scale 1:'' @ d # ds' @ rest, Map.empty) =
      rx_then (Star (Chars is_digit)) K (ds' @ rest, Map.empty) @ tl"
    unfolding rx_run_then scale_rx_def K_def
    using sp
    by (simp add: rx_then_Seq ILit_def rx_then_Chars rx_then_Empty rx_then_Opt rx_then_Group Plus_def
        rx_then_Star_Cons d nsp)
  then obtain tl where "rx_run scale_rx (''Scale 1:'' @ d # ds' @ rest, Map.empty) =
      rx_then (Star (Chars is_digit)) K (ds' @ rest, Map.empty) @ tl" by (elim exE)
  with ne hd have "rx_run scale_rx (''Scale 1:'' @ d # ds' @ rest, Map.empty) \<noteq> []"
    "hd (rx_run scale_rx (''Scale 1:'' @ d # ds' @ rest, Map.empty)) = (rest, [1 \<mapsto> d # ds'])"
    by simp_all
  then show ?thesis
    unfolding rx_match_at_def dd by (simp add: first_result)
qed


lemma extract_scale_leading:
  assumes ds: "is_digits ds" and rest: "rest = [] \<or> \<not> is_digit (hd rest)"
  shows "extract_scale maxd (''Scale 1:'' @ ds @ rest) =
    (case py_int maxd ds of Inl e \<Rightarrow> Inl e | Inr n \<Rightarrow> Inr (Some n))"
proof -
  have "rx_match_at scale_rx (drop 0 (''Scale 1:'' @ ds @ rest)) = Some (rest, [1 \<mapsto> ds])"
    using scale_leading[OF ds rest] by simp
  then have "rx_search scale_rx (''Scale 1:'' @ ds @ rest) = Some (snd (rest, [1 \<mapsto> ds]))"
    by (intro rx_search_first[of 0]) simp_all
  then show ?thesis
    by (simp add: extract_scale_def group_def)
qed

lemma sevens: "is_digits (replicate 4301 CHR ''7'')" "length (replicate 4301 CHR ''7'') = 4301"
  by (simp_all add: is_digits_def list_all_iff is_digit_def)

lemma blank_rest: "'' Scale 1:50'' = [] \<or> \<not> is_digit (hd '' Scale 1:50'')"
  by (simp add: is_digit_def)

text \<open>
  With the default limit of 4300 digits on the conversion of a string to an int, a
  first declaration of 4301 digits makes \<open>extract_scale\<close> raise: no denominator is
  kept, and the declaration after it is not used either.
\<close>

theorem first_scale_overlong_counterexample:
  "extract_scale 4300 (''Scale 1:'' @ replicate 4301 CHR ''7'' @ '' Scale 1:50'') =
     Inl (ValueError ''Exceeds the limit for integer string conversion'')"
  unfolding extract_scale_leading[OF sevens(1) blank_rest]
  by (simp add: py_int_def sevens)

text \<open>
  C8, as the code has it. A pattern that does not match raises nothing: for a text
  without a scale declaration the scale extractor returns the absent value, and for a
  text without a measurement the measurement parser returns the empty list. When the
  text has several scale declarations the first match alone decides the result: its
  denominator is returned when it has at most 640 digits, or when the limit of the
  interpreter on the digits of an int is off or not exceeded; when the denominator of
  the first match exceeds that limit the conversion raises \<open>ValueError\<close>. A later
  declaration is never used.
\<close>

theorem non_matches_and_first_scale:
  "((\<forall>k\<le>length text. rx_match_at scale_rx (drop k text) = None) \<longrightarrow>
      extract_scale maxd text = Inr None)
   \<and> (k \<le> length text \<and> (\<forall>j<k. rx_match_at scale_rx (drop j text) = None)
        \<and> rx_match_at scale_rx (drop k text) = Some m
        \<and> (maxd = 0 \<or> length (group (snd m) 1) \<le> maxd \<or> length (group (snd m) 1) \<le> 640) \<longrightarrow>
      extract_scale maxd text = Inr (Some (int (digits_val (group (snd m) 1)))))
   \<and> (k \<le> length text \<and> (\<forall>j<k. rx_match_at scale_rx (drop j text) = None)
        \<and> rx_match_at scale_rx (drop k text) = Some m
        \<and> 0 < maxd \<and> maxd < length (group (snd m) 1) \<and> 640 < length (group (snd m) 1) \<longrightarrow>
      extract_scale maxd text = Inl (ValueError ''Exceeds the limit for integer string conversion''))
   \<and> (is_digits ds \<and> (rest = [] \<or> \<not> is_digit (hd rest)) \<and> length ds \<le> 640 \<longrightarrow>
      extract_scale maxd (''Scale 1:'' @ ds @ rest) = Inr (Some (int (digits_val ds))))
   \<and> extract_scale maxd ''Scale 1:50 and Scale 1:100'' = Inr (Some 50)
   \<and> ((\<forall>k\<le>length (py_lower text). rx_match_at measurement_rx (drop k (py_lower text)) = None) \<longrightarrow>
      extract_measurements text = Inr [])"
proof -
  have a: "(\<forall>k\<le>length text. rx_match_at scale_rx (drop k text) = None) \<longrightarrow>
      extract_scale maxd text = Inr None"
    unfolding rx_search_None_iff[symmetric] by (simp add: extract_scale_def)
  have first: "extract_scale maxd text =
        (case py_int maxd (group (snd m) 1) of Inl e \<Rightarrow> Inl e | Inr n \<Rightarrow> Inr (Some n))"
    if "k \<le> length text" "\<forall>j<k. rx_match_at scale_rx (drop j text) = None"
      "rx_match_at scale_rx (drop k text) = Some m"
  proof -
    from that have "rx_search scale_rx text = Some (snd m)" by (rule rx_search_first)
    then show ?thesis by (simp add: extract_scale_def)
  qed
  have b: "k \<le> length text \<and> (\<forall>j<k. rx_match_at scale_rx (drop j text) = None)
        \<and> rx_match_at scale_rx (drop k text) = Some m
        \<and> (maxd = 0 \<or> length (group (snd m) 1) \<le> maxd \<or> length (group (snd m) 1) \<le> 640) \<longrightarrow>
      extract_scale maxd text = Inr (Some (int (digits_val (group (snd m) 1))))"
  proof (intro impI, elim conjE)
    assume h: "k \<le> length text" "\<forall>j<k. rx_match_at scale_rx (drop j text) = None"
      "rx_match_at scale_rx (drop k text) = Some m"
      and l: "maxd = 0 \<or> length (group (snd m) 1) \<le> maxd \<or> length (group (snd m) 1) \<le> 640"
    from l have "py_int maxd (group (snd m) 1) = Inr (int (digits_val (group (snd m) 1)))"
      by (auto simp: py_int_def)
    then show "extract_scale maxd text = Inr (Some (int (digits_val (group (snd m) 1))))"
      unfolding first[OF h] by simp
  qed
  have c: "k \<le> length text \<and> (\<forall>j<k. rx_match_at scale_rx (drop j text) = None)
        \<and> rx_match_at scale_rx (drop k text) = Some m
        \<and> 0 < maxd \<and> maxd < length (group (snd m) 1) \<and> 640 < length (group (snd m) 1) \<longrightarrow>
      extract_scale maxd text = Inl (ValueError ''Exceeds the limit for integer string conversion'')"
  proof (intro impI, elim conjE)
    assume h: "k \<le> length text" "\<forall>j<k. rx_match_at scale_rx (drop j text) = None"
      "rx_match_at scale_rx (drop k text) = Some m"
      and l: "0 < maxd" "maxd < length (group (snd m) 1)" "640 < length (group (snd m) 1)"
    from l have "py_int maxd (group (snd m) 1) =
        Inl (ValueError ''Exceeds the limit for integer string conversion'')"
      by (simp add: py_int_def)
    then show "extract_scale maxd text =
        Inl (ValueError ''Exceeds the limit for integer string conversion'')"
      unfolding first[OF h] by simp
  qed
  have d: "is_digits ds \<and> (rest = [] \<or> \<not> is_digit (hd rest)) \<and> length ds \<le> 640 \<longrightarrow>
      extract_scale maxd (''Scale 1:'' @ ds @ rest) = Inr (Some (int (digits_val ds)))"
  proof (intro impI, elim conjE)
    assume h: "is_digits ds" "rest = [] \<or> \<not> is_digit (hd rest)" and l: "length ds \<le> 640"
    from l have "py_int maxd ds = Inr (int (digits_val ds))" by (simp add: py_int_def)
    then show "extract_scale maxd (''Scale 1:'' @ ds @ rest) = Inr (Some (int (digits_val ds)))"
      unfolding extract_scale_leading[OF h] by simp
  qed
  have e: "(\<forall>k\<le>length (py_lower text). rx_match_at measurement_rx (drop k (py_lower text)) = None) \<longrightarrow>
      extract_measurements text = Inr []"
  proof
    assume "\<forall>k\<le>length (py_lower text). rx_match_at measurement_rx (drop k (py_lower text)) = None"
    then have "rx_findall measurement_rx (py_lower text) = []" by (rule rx_findall_none)
    then show "extract_measurements text = Inr []" by (simp add: extract_measurements_def)
  qed
  show ?thesis by (intro conjI a b c d scale_two_declarations e)
qed


theorem non_matches_and_first_scale_witness:
  "rx_search scale_rx ''no scaling'' = None
   \<and> extract_scale 4300 ''no scaling'' = Inr None
   \<and> 2 \<le> length ''A Scale 1:50 Scale 1:100''
   \<and> rx_match_at scale_rx (drop 0 ''A Scale 1:50 Scale 1:100'') = None
   \<and> rx_match_at scale_rx (drop 1 ''A Scale 1:50 Scale 1:100'') = None
   \<and> rx_match_at scale_rx (drop 2 ''A Scale 1:50 Scale 1:100'')
        = Some ('' Scale 1:100'', [1 \<mapsto> ''50''])
   \<and> length (group (snd ('' Scale 1:100'', [1 \<mapsto> ''50''])) 1) \<le> 640
   \<and> extract_scale 4300 ''A Scale 1:50 Scale 1:100'' = Inr (Some 50)
   \<and> rx_match_at scale_rx (drop 0 (''Scale 1:'' @ replicate 4301 CHR ''7'' @ '' Scale 1:50''))
        = Some ('' Scale 1:50'', [1 \<mapsto> replicate 4301 CHR ''7''])
   \<and> 4300 < length (group (snd ('' Scale 1:50'', [1 \<mapsto> replicate 4301 CHR ''7''])) 1)
   \<and> extract_scale 4300 (''Scale 1:'' @ replicate 4301 CHR ''7'' @ '' Scale 1:50'') =
        Inl (ValueError ''Exceeds the limit for integer string conversion'')
   \<and> is_digits ''50'' \<and> length ''50'' \<le> 640
   \<and> extract_scale 4300 (''Scale 1:'' @ ''50'' @ '' and Scale 1:100'') = Inr (Some 50)
   \<and> rx_search measurement_rx (py_lower ''Wall'') = None
   \<and> extract_measurements ''Wall'' = Inr []"
proof -
  let ?big = "''Scale 1:'' @ replicate 4301 CHR ''7'' @ '' Scale 1:50''"
  let ?mb = "('' Scale 1:50'', [1 \<mapsto> replicate 4301 CHR ''7''])"
  let ?m2 = "('' Scale 1:100'', [1 \<mapsto> ''50''])"
  note t1 = non_matches_and_first_scale[of "''no scaling''" 4300 0 "([], Map.empty)" "[]" "[]"]
  note t2 = non_matches_and_first_scale[of "''A Scale 1:50 Scale 1:100''" 4300 2 ?m2 "[]" "[]"]
  note t3 = non_matches_and_first_scale[of ?big 4300 0 ?mb "[]" "[]"]
  note t4 = non_matches_and_first_scale[of "[]" 4300 0 "([], Map.empty)" "''50''"
      "'' and Scale 1:100''"]
  note t5 = non_matches_and_first_scale[of "''Wall''" 4300 0 "([], Map.empty)" "[]" "[]"]
  have n1: "rx_search scale_rx ''no scaling'' = None"
    by (simp add: scale_rx_def rx_eval char_eval)
  then have h1: "\<forall>k\<le>length ''no scaling''. rx_match_at scale_rx (drop k ''no scaling'') = None"
    unfolding rx_search_None_iff .
  have c1: "extract_scale 4300 ''no scaling'' = Inr None"
    by (rule mp[OF conjunct1[OF t1] h1])
  have h2: "2 \<le> length ''A Scale 1:50 Scale 1:100''" by simp
  have n2: "rx_match_at scale_rx (drop 0 ''A Scale 1:50 Scale 1:100'') = None"
    "rx_match_at scale_rx (drop 1 ''A Scale 1:50 Scale 1:100'') = None"
    by (simp_all add: scale_rx_def rx_eval char_eval)
  then have h3: "\<forall>j<2. rx_match_at scale_rx (drop j ''A Scale 1:50 Scale 1:100'') = None"
    by (simp add: numeral_2_eq_2 less_Suc_eq)
  have h4: "rx_match_at scale_rx (drop 2 ''A Scale 1:50 Scale 1:100'') = Some ?m2"
    by (simp add: scale_rx_def rx_eval char_eval)
  have h5: "length (group (snd ?m2) 1) \<le> 640" by (simp add: group_def)
  have h5': "4300 = (0::nat) \<or> length (group (snd ?m2) 1) \<le> 4300
      \<or> length (group (snd ?m2) 1) \<le> 640"
    using h5 by simp
  have "extract_scale 4300 ''A Scale 1:50 Scale 1:100'' =
      Inr (Some (int (digits_val (group (snd ?m2) 1))))"
    by (rule mp[OF conjunct1[OF conjunct2[OF t2]]]) (intro conjI h2 h3 h4 h5')
  then have c2: "extract_scale 4300 ''A Scale 1:50 Scale 1:100'' = Inr (Some 50)"
    by (simp add: rx_eval)
  have h6: "rx_match_at scale_rx (drop 0 ?big) = Some ?mb"
    using scale_leading[OF sevens(1) blank_rest] by simp
  have h7: "4300 < length (group (snd ?mb) 1)" by (simp add: group_def)
  have h8: "640 < length (group (snd ?mb) 1)" by (simp add: group_def)
  have h9: "0 \<le> length ?big" "\<forall>j<0. rx_match_at scale_rx (drop j ?big) = None"
    "(0::nat) < 4300"
    by simp_all
  have c3: "extract_scale 4300 ?big =
      Inl (ValueError ''Exceeds the limit for integer string conversion'')"
    by (rule mp[OF conjunct1[OF conjunct2[OF conjunct2[OF t3]]]]) (intro conjI h9 h6 h7 h8)
  have h10: "is_digits ''50''" by (simp add: is_digits_def is_digit_def)
  have h11: "'' and Scale 1:100'' = [] \<or> \<not> is_digit (hd '' and Scale 1:100'')"
    by (simp add: is_digit_def)
  have h12: "length ''50'' \<le> 640" by simp
  have "extract_scale 4300 (''Scale 1:'' @ ''50'' @ '' and Scale 1:100'') =
      Inr (Some (int (digits_val ''50'')))"
    by (rule mp[OF conjunct1[OF conjunct2[OF conjunct2[OF conjunct2[OF t4]]]]])
      (intro conjI h10 h11 h12)
  then have c4: "extract_scale 4300 (''Scale 1:'' @ ''50'' @ '' and Scale 1:100'') = Inr (Some 50)"
    by (simp add: rx_eval)
  have n3: "rx_search measurement_rx (py_lower ''Wall'') = None"
    by (simp add: measurement_rx_def rx_eval char_eval)
  then have h13: "\<forall>k\<le>length (py_lower ''Wall'').
      rx_match_at measurement_rx (drop k (py_lower ''Wall'')) = None"
    unfolding rx_search_None_iff .
  have c5: "extract_measurements ''Wall'' = Inr []"
    by (rule mp[OF conjunct2[OF conjunct2[OF conjunct2[OF conjunct2[OF conjunct2[OF t5]]]]] h13])
  show ?thesis
    by (intro conjI n1 c1 h2 n2 h4 h5 c2 h6 h7 c3 h10 h12 c4 n3 c5)
qed

end
